theory Spec2Isabelle
  imports Complex_Main
begin

section \<open>Errors\<close>

text \<open>
  The Python exceptions the modelled code can raise. The two \<^verbatim>\<open>assert\<close> statements of
  \<^verbatim>\<open>GeneralizedExponential.__init__\<close> both raise \<^verbatim>\<open>AssertionError\<close>; they are told
  apart here by the assertion that failed: \<open>LengthMismatch\<close> is
  \<^verbatim>\<open>assert len(sensitivity) == len(utility)\<close> and \<open>DegenerateSensitivity\<close> is
  \<^verbatim>\<open>assert 0 not in sensitivity\<close>. \<open>MathDomainError\<close> is the \<^verbatim>\<open>ValueError\<close> that
  \<^verbatim>\<open>math.log\<close> raises on a non-positive argument; \<open>ValueError\<close> is every other
  \<^verbatim>\<open>ValueError\<close> (of \<^verbatim>\<open>max\<close>, \<^verbatim>\<open>min\<close>, \<^verbatim>\<open>random.sample\<close> and of the sparse-matrix
  library).
\<close>

datatype error =
    ValueError
  | LengthMismatch
  | DegenerateSensitivity
  | MathDomainError
  | ZeroDivisionError
  | IndexError

section \<open>The data set (dataset.py)\<close>

text \<open>
  \<^verbatim>\<open>DataSet.__init__\<close> keeps the list of per-user value lists and derives the degree, the
  number of distinct values and the number of records from it. \<^verbatim>\<open>max\<close> of an empty
  sequence raises \<^verbatim>\<open>ValueError\<close>, so a data set has at least one user. Value identifiers
  are natural numbers. The two memo fields \<^verbatim>\<open>_matrix\<close> and \<^verbatim>\<open>_flow_matrix\<close> only cache
  pure functions of the data and are left out.
\<close>

record DataSet =
  data :: "nat list list"
  degree :: nat
  number_of_values :: nat
  number_of_records :: nat

definition DataSet_init :: "nat list list \<Rightarrow> error + DataSet" where
  "DataSet_init xs =
     (if xs = [] then Inl ValueError
      else Inr \<lparr> data = xs,
                 degree = Max (set (map length xs)),
                 number_of_values = card (set (concat xs)),
                 number_of_records = sum_list (map length xs) \<rparr>)"

definition number_of_users :: "DataSet \<Rightarrow> nat" where
  "number_of_users d = length (data d)"

text \<open>
  The invariant of the data model that the value identifiers are contiguous and start
  at 0: the values that occur are exactly \<open>0 \<dots> number_of_values - 1\<close>.
\<close>

definition contiguous_values :: "DataSet \<Rightarrow> bool" where
  "contiguous_values d \<longleftrightarrow> set (concat (data d)) = {0..<number_of_values d}"

section \<open>The estimators written in the repository (distinct\_count.py)\<close>

definition true_distinct_count :: "DataSet \<Rightarrow> nat" where
  "true_distinct_count d = number_of_values d"

text \<open>
  The inner \<^verbatim>\<open>while\<close> loop of \<^verbatim>\<open>greedy_distinct_count\<close> for one user: the cursor
  \<open>p\<close> moves through the user's list \<open>r\<close> until a value outside \<open>result\<close> is found
  (added, then \<^verbatim>\<open>break\<close>) or the list is exhausted.
\<close>

function greedy_scan :: "nat list \<Rightarrow> nat \<Rightarrow> nat set \<Rightarrow> nat \<times> nat set" where
  "greedy_scan r p result =
     (if p < length r then
        (if r ! p \<notin> result then (p + 1, insert (r ! p) result)
         else greedy_scan r (p + 1) result)
      else (p, result))"
  by pat_completeness auto
termination
  by (relation "measure (\<lambda>(r, p, result). length r - p)") auto

declare greedy_scan.simps [simp del]

text \<open>
  One round, \<^verbatim>\<open>for i, r in enumerate(data)\<close>, on the state \<open>(result, positions)\<close>;
  \<open>i\<close> is the index of the first user of the remaining list.
\<close>

fun greedy_pass :: "nat list list \<Rightarrow> nat \<Rightarrow> nat set \<times> nat list \<Rightarrow> nat set \<times> nat list" where
  "greedy_pass [] i st = st"
| "greedy_pass (r # rs) i (result, positions) =
     (case greedy_scan r (positions ! i) result of
        (p, result') \<Rightarrow> greedy_pass rs (i + 1) (result', positions[i := p]))"

text \<open>
  \<^verbatim>\<open>for _ in range(user_contribution_bound)\<close>: \<^verbatim>\<open>range(b)\<close> is empty for \<open>b \<le> 0\<close>,
  which is \<open>nat b = 0\<close> iterations.
\<close>

definition greedy_state :: "DataSet \<Rightarrow> int \<Rightarrow> nat set \<times> nat list" where
  "greedy_state d b =
     ((greedy_pass (data d) 0) ^^ (nat b)) ({}, replicate (length (data d)) 0)"

definition greedy_distinct_count :: "DataSet \<Rightarrow> int \<Rightarrow> int" where
  "greedy_distinct_count d b = int (card (fst (greedy_state d b)))"

text \<open>
  \<^verbatim>\<open>_sample\<close>. \<^verbatim>\<open>random.sample(values, k=num)\<close> raises \<^verbatim>\<open>ValueError\<close> for a negative
  \<open>num\<close> (a \<open>num\<close> above the length never reaches it), and otherwise returns the values
  at \<open>num\<close> distinct positions of the list. The positions drawn are the argument
  \<open>draw\<close>; \<open>valid_draw\<close> says what the random generator guarantees about them.
\<close>

definition sample :: "nat list \<Rightarrow> int \<Rightarrow> nat list \<Rightarrow> error + nat list" where
  "sample values num draw =
     (if int (length values) < num then Inr values
      else if num < 0 then Inl ValueError
      else Inr (map (\<lambda>i. values ! i) draw))"

definition valid_draw :: "nat list \<Rightarrow> int \<Rightarrow> nat list \<Rightarrow> bool" where
  "valid_draw values num draw \<longleftrightarrow>
     int (length draw) = num \<and> distinct draw \<and> (\<forall>i \<in> set draw. i < length values)"

text \<open>
  \<^verbatim>\<open>sampling_distinct_count\<close>: the loop over the users, with one draw per user
  (\<open>draws\<close> runs parallel to the data; a user whose draw is missing gets the empty draw).
\<close>

fun sampling_loop :: "nat list list \<Rightarrow> int \<Rightarrow> nat list list \<Rightarrow> nat set \<Rightarrow> error + nat set" where
  "sampling_loop [] b draws result = Inr result"
| "sampling_loop (record # rest) b draws result =
     (case sample record b (case draws of [] \<Rightarrow> [] | dr # _ \<Rightarrow> dr) of
        Inl e \<Rightarrow> Inl e
      | Inr chosen \<Rightarrow> sampling_loop rest b (tl draws) (result \<union> set chosen))"

definition sampling_distinct_count :: "DataSet \<Rightarrow> int \<Rightarrow> nat list list \<Rightarrow> error + int" where
  "sampling_distinct_count d b draws =
     (case sampling_loop (data d) b draws {} of
        Inl e \<Rightarrow> Inl e
      | Inr result \<Rightarrow> Inr (int (card result)))"

definition valid_draws :: "DataSet \<Rightarrow> int \<Rightarrow> nat list list \<Rightarrow> bool" where
  "valid_draws d b draws \<longleftrightarrow>
     length draws = length (data d) \<and>
     (\<forall>i < length (data d).
        b \<le> int (length (data d ! i)) \<longrightarrow> valid_draw (data d ! i) b (draws ! i))"

section \<open>Sparse matrices (scipy.sparse) and the matrices of a data set\<close>

text \<open>
  A sparse matrix built from coordinate triples \<open>(row, column, weight)\<close>. The library
  infers the shape from the largest indices, refuses empty index arrays with
  \<^verbatim>\<open>ValueError\<close>, and adds up the weights of triples at the same position
  (\<open>weight_at\<close>, \<open>entry\<close>). \<open>stored\<close> is the sparsity structure: the positions that hold an entry.
\<close>

record csr_matrix =
  nrows :: nat
  ncols :: nat
  triples :: "(nat \<times> nat \<times> int) list"

definition csr_matrix_init :: "(nat \<times> nat \<times> int) list \<Rightarrow> error + csr_matrix" where
  "csr_matrix_init ts =
     (if ts = [] then Inl ValueError
      else Inr \<lparr> nrows = Max (set (map fst ts)) + 1,
                 ncols = Max (set (map (fst \<circ> snd) ts)) + 1,
                 triples = ts \<rparr>)"

definition stored :: "csr_matrix \<Rightarrow> (nat \<times> nat) set" where
  "stored G = set (map (\<lambda>(r, c, w). (r, c)) (triples G))"

definition weight_at :: "(nat \<times> nat \<times> int) list \<Rightarrow> nat \<times> nat \<Rightarrow> int" where
  "weight_at ts e = sum_list (map (\<lambda>(r, c, w). w) (filter (\<lambda>(r, c, w). (r, c) = e) ts))"

definition entry :: "csr_matrix \<Rightarrow> nat \<times> nat \<Rightarrow> int" where
  "entry G e = weight_at (triples G) e"

text \<open>\<^verbatim>\<open>_to_matrix\<close>: one triple of weight 1 per user and item of the user's list.\<close>

definition to_matrix :: "nat list list \<Rightarrow> error + csr_matrix" where
  "to_matrix xs =
     csr_matrix_init
       (concat (map (\<lambda>(index, row). map (\<lambda>item. (index, item, 1)) row) (enumerate 0 xs)))"

definition as_matrix :: "DataSet \<Rightarrow> error + csr_matrix" where
  "as_matrix d = to_matrix (data d)"

text \<open>
  \<^verbatim>\<open>_to_flow_matrix\<close>: node 0 is the source and node 1 the sink, user \<open>index\<close> is node
  \<open>index + 2\<close> and value \<open>item\<close> is node \<open>item + number_of_users + 2\<close>. The triples are,
  in the order of the source, the edges from the source to every user with the
  contribution bound as capacity, the edges of capacity 1 from the value nodes to the
  sink, and one edge of capacity 1 per user and item of the user's list.
\<close>

definition flow_triples :: "nat \<Rightarrow> nat list list \<Rightarrow> int \<Rightarrow> (nat \<times> nat \<times> int) list" where
  "flow_triples values xs user_contribution_bound =
     (let users = length xs in
      map (\<lambda>i. (0, i, user_contribution_bound)) [2..<users + 2]
      @ map (\<lambda>i. (i, 1, 1)) [users + 2..<values + users + 2]
      @ concat (map (\<lambda>(index, row). map (\<lambda>item. (index + 2, item + users + 2, 1)) row)
                  (enumerate 0 xs)))"

definition to_flow_matrix :: "nat \<Rightarrow> nat list list \<Rightarrow> int \<Rightarrow> error + csr_matrix" where
  "to_flow_matrix values xs user_contribution_bound =
     csr_matrix_init (flow_triples values xs user_contribution_bound)"

definition as_flow_matrix :: "DataSet \<Rightarrow> int \<Rightarrow> error + csr_matrix" where
  "as_flow_matrix d user_contribution_bound =
     to_flow_matrix (number_of_values d) (data d) user_contribution_bound"

text \<open>
  \<^verbatim>\<open>sparse.vstack\<close>: the blocks one below the other. An empty list of blocks and blocks
  of different widths are refused with \<^verbatim>\<open>ValueError\<close>.
\<close>

fun stack_triples :: "csr_matrix list \<Rightarrow> nat \<Rightarrow> (nat \<times> nat \<times> int) list" where
  "stack_triples [] off = []"
| "stack_triples (m # ms) off =
     map (\<lambda>(r, c, w). (r + off, c, w)) (triples m) @ stack_triples ms (off + nrows m)"

definition vstack :: "csr_matrix list \<Rightarrow> error + csr_matrix" where
  "vstack blocks =
     (if blocks = [] then Inl ValueError
      else if \<exists>m \<in> set blocks. ncols m \<noteq> ncols (hd blocks) then Inl ValueError
      else Inr \<lparr> nrows = sum_list (map nrows blocks),
                 ncols = ncols (hd blocks),
                 triples = stack_triples blocks 0 \<rparr>)"

section \<open>Maximum bipartite matching (scipy.sparse.csgraph)\<close>

text \<open>
  \<^verbatim>\<open>csgraph.maximum_bipartite_matching\<close> is library code. Its contract: it returns, for
  every column, the row matched to it or \<open>-1\<close>, for a matching of maximum cardinality
  between the rows and the columns of the sparsity structure. The expression
  \<^verbatim>\<open>(... != -1).sum()\<close> of the source counts the matched columns, which is that
  maximum cardinality; \<open>matched_columns\<close> is this number, computed over
  all subsets of the stored positions.
\<close>

definition is_matching :: "(nat \<times> nat) set \<Rightarrow> bool" where
  "is_matching M \<longleftrightarrow> (\<forall>e \<in> M. \<forall>e' \<in> M. fst e = fst e' \<or> snd e = snd e' \<longrightarrow> e = e')"

definition matched_columns :: "csr_matrix \<Rightarrow> nat" where
  "matched_columns G = Max (card ` {M \<in> Pow (stored G). is_matching M})"

text \<open>\<^verbatim>\<open>[data.as_matrix()] * b\<close> is the empty list for \<open>b \<le> 0\<close>.\<close>

definition matching_distinct_count :: "DataSet \<Rightarrow> int \<Rightarrow> error + int" where
  "matching_distinct_count d b =
     (case as_matrix d of
        Inl e \<Rightarrow> Inl e
      | Inr m \<Rightarrow>
          (case vstack (replicate (nat b) m) of
             Inl e \<Rightarrow> Inl e
           | Inr s \<Rightarrow> Inr (int (matched_columns s))))"

section \<open>Maximum flow (scipy.sparse.csgraph)\<close>

text \<open>
  \<^verbatim>\<open>csgraph.maximum_flow\<close> is library code. It refuses with \<^verbatim>\<open>ValueError\<close> a matrix
  that is not square, equal source and sink, and a source or sink that is not a node.
  Its contract for integer capacities: \<^verbatim>\<open>flow_value\<close> is the
  largest value of an integer flow from the source to the sink. A flow assigns to every
  stored position an integer between 0 and its capacity (\<open>flows\<close> lists all these
  assignments), and is conserved at every node other than the source and the sink;
  its value is what leaves the source minus what enters it. An edge whose capacity is
  negative carries no flow (the library never pushes flow along an edge without
  residual capacity), so it counts as an edge of capacity 0.
\<close>

definition indices :: "csr_matrix \<Rightarrow> (nat \<times> nat) list" where
  "indices G = remdups (map (\<lambda>(r, c, w). (r, c)) (triples G))"

definition flows :: "csr_matrix \<Rightarrow> ((nat \<times> nat) \<times> int) list list" where
  "flows G = product_lists (map (\<lambda>e. map (Pair e) [0..max 0 (entry G e)]) (indices G))"

definition flow_on :: "((nat \<times> nat) \<times> int) list \<Rightarrow> nat \<times> nat \<Rightarrow> int" where
  "flow_on f e = (case map_of f e of None \<Rightarrow> 0 | Some x \<Rightarrow> x)"

definition inflow :: "csr_matrix \<Rightarrow> ((nat \<times> nat) \<times> int) list \<Rightarrow> nat \<Rightarrow> int" where
  "inflow G f v = (\<Sum>u < nrows G. flow_on f (u, v))"

definition outflow :: "csr_matrix \<Rightarrow> ((nat \<times> nat) \<times> int) list \<Rightarrow> nat \<Rightarrow> int" where
  "outflow G f v = (\<Sum>w < nrows G. flow_on f (v, w))"

definition conserved :: "csr_matrix \<Rightarrow> nat \<Rightarrow> nat \<Rightarrow> ((nat \<times> nat) \<times> int) list \<Rightarrow> bool" where
  "conserved G source sink f \<longleftrightarrow>
     (\<forall>v < nrows G. v \<noteq> source \<and> v \<noteq> sink \<longrightarrow> inflow G f v = outflow G f v)"

definition flow_value :: "csr_matrix \<Rightarrow> nat \<Rightarrow> ((nat \<times> nat) \<times> int) list \<Rightarrow> int" where
  "flow_value G source f = outflow G f source - inflow G f source"

definition maximum_flow :: "csr_matrix \<Rightarrow> nat \<Rightarrow> nat \<Rightarrow> error + int" where
  "maximum_flow G source sink =
     (if nrows G \<noteq> ncols G \<or> source = sink \<or> \<not> source < nrows G \<or> \<not> sink < nrows G
      then Inl ValueError
      else Inr (Max (flow_value G source ` {f \<in> set (flows G). conserved G source sink f})))"

definition flow_distinct_count :: "DataSet \<Rightarrow> int \<Rightarrow> error + int" where
  "flow_distinct_count d b =
     (case as_flow_matrix d b of
        Inl e \<Rightarrow> Inl e
      | Inr g \<Rightarrow> maximum_flow g 0 1)"

section \<open>Assignments of values to users\<close>

text \<open>
  The combinatorial problem behind the estimators: \<open>pairs\<close> are the contributions
  (user, value) of a data set; a \<open>bounded_matching\<close> selects contributions so that no
  value is selected twice and no user more than \<open>b\<close> times; \<open>optimum\<close> is the largest
  number of contributions that can be selected.
\<close>

definition pairs :: "nat list list \<Rightarrow> (nat \<times> nat) set" where
  "pairs xs = {(i, v). i < length xs \<and> v \<in> set (xs ! i)}"

definition bounded_matching :: "(nat \<times> nat) set \<Rightarrow> nat \<Rightarrow> (nat \<times> nat) set \<Rightarrow> bool" where
  "bounded_matching P b N \<longleftrightarrow>
     N \<subseteq> P \<and> inj_on snd N \<and> (\<forall>i. card {v. (i, v) \<in> N} \<le> b)"

definition optimum :: "(nat \<times> nat) set \<Rightarrow> nat \<Rightarrow> nat" where
  "optimum P b = Max (card ` {N. bounded_matching P b N})"

text \<open>
  A set of values is \<open>assigned\<close> within the counts \<open>c\<close> when every value can be charged
  to a user who contributed it, user \<open>j\<close> being charged at most \<open>c j\<close> times.
\<close>

definition assigned :: "nat list list \<Rightarrow> nat set \<Rightarrow> (nat \<Rightarrow> nat) \<Rightarrow> bool" where
  "assigned xs S c \<longleftrightarrow>
     finite S \<and> (\<exists>g. (\<forall>v \<in> S. (g v, v) \<in> pairs xs) \<and> (\<forall>j. card {v \<in> S. g v = j} \<le> c j))"

text \<open>
  The shape of the flow matrix of a data set with \<open>nu\<close> users, \<open>nv\<close> values and the
  contributions \<open>P\<close>: the edges from the source with capacity \<open>b\<close>, the edges to the sink
  with capacity 1, and an edge of capacity at least 1 per contribution.
\<close>

definition is_flow_network :: "nat \<Rightarrow> nat \<Rightarrow> (nat \<times> nat) set \<Rightarrow> int \<Rightarrow> csr_matrix \<Rightarrow> bool" where
  "is_flow_network nu nv P b G \<longleftrightarrow>
     nrows G = nu + nv + 2 \<and> ncols G = nu + nv + 2
     \<and> stored G = (\<lambda>i. (0, i + 2)) ` {..<nu} \<union> (\<lambda>v. (v + nu + 2, 1)) ` {..<nv}
                    \<union> (\<lambda>(i, v). (i + 2, v + nu + 2)) ` P
     \<and> (\<forall>i < nu. entry G (0, i + 2) = b)
     \<and> (\<forall>v < nv. entry G (v + nu + 2, 1) = 1)
     \<and> (\<forall>(i, v) \<in> P. 1 \<le> entry G (i + 2, v + nu + 2))
     \<and> P \<subseteq> {..<nu} \<times> {..<nv}"

section \<open>The exponential mechanism (diffprivlib)\<close>

text \<open>
  \<^verbatim>\<open>mechanisms.Exponential\<close> is library code; real numbers stand for Python floats
  throughout. The constructor keeps its arguments and refuses with \<^verbatim>\<open>ValueError\<close> a
  privacy parameter that is not positive, a negative sensitivity, an empty utility list
  and a candidate list of another length. \<^verbatim>\<open>randomise()\<close> draws an index into the
  utility list at random and returns the candidate at that index, or the index itself
  when no candidates were given. The index drawn is the argument \<open>idx\<close>; the library
  guarantees \<open>idx < length (mech_utility m)\<close>.
\<close>

record Exponential =
  mech_epsilon :: real
  mech_sensitivity :: real
  mech_utility :: "real list"
  mech_candidates :: "nat list option"

definition Exponential_init ::
  "real \<Rightarrow> real \<Rightarrow> real list \<Rightarrow> nat list option \<Rightarrow> error + Exponential" where
  "Exponential_init eps sens util cands =
     (if eps \<le> 0 \<or> sens < 0 \<or> util = [] then Inl ValueError
      else if (case cands of None \<Rightarrow> False | Some cs \<Rightarrow> length cs \<noteq> length util)
        then Inl ValueError
      else Inr \<lparr> mech_epsilon = eps, mech_sensitivity = sens, mech_utility = util,
                 mech_candidates = cands \<rparr>)"

definition Exponential_randomise :: "Exponential \<Rightarrow> nat \<Rightarrow> nat" where
  "Exponential_randomise m idx =
     (case mech_candidates m of None \<Rightarrow> idx | Some cs \<Rightarrow> cs ! idx)"

section \<open>The generalized exponential mechanism (selection.py)\<close>

text \<open>
  The \<open>sensitivity\<close> argument is a number or a sequence; a number is repeated once per
  utility.
\<close>

datatype sensitivity_arg = Scalar real | Sequence "real list"

definition broadcast :: "sensitivity_arg \<Rightarrow> nat \<Rightarrow> real list" where
  "broadcast sens n = (case sens of Scalar x \<Rightarrow> replicate n x | Sequence xs \<Rightarrow> xs)"

record GeneralizedExponential =
  mechanism :: Exponential

text \<open>The quotient inside the \<^verbatim>\<open>max\<close> and the list \<^verbatim>\<open>reweighed_utility\<close>.\<close>

definition reweigh_term :: "real list \<Rightarrow> real list \<Rightarrow> real \<Rightarrow> nat \<Rightarrow> nat \<Rightarrow> real" where
  "reweigh_term s u t i j =
     ((- (u ! i) + s ! i * t) - (- (u ! j) + s ! j * t)) / (s ! i + s ! j)"

definition reweighed_utility :: "real list \<Rightarrow> real list \<Rightarrow> real \<Rightarrow> real list" where
  "reweighed_utility s u t =
     map (\<lambda>i. - Max (set (map (\<lambda>j. reweigh_term s u t i j) [0..<length u]))) [0..<length u]"

text \<open>
  \<^verbatim>\<open>GeneralizedExponential.__init__\<close>, in the order of the source: the two assertions,
  then \<open>t\<close> (\<^verbatim>\<open>len(utility) / beta\<close> divides by \<open>beta\<close>, \<^verbatim>\<open>math.log\<close> needs a positive
  argument, then the division by \<open>epsilon\<close>), the shift by the minimum, the reweighed
  utilities (a division by \<open>s\<^sub>i + s\<^sub>j\<close>), and the library's constructor with sensitivity 1.
\<close>

definition GeneralizedExponential_init ::
  "real \<Rightarrow> real \<Rightarrow> sensitivity_arg \<Rightarrow> real list \<Rightarrow> error + GeneralizedExponential" where
  "GeneralizedExponential_init epsilon beta sensitivity utility =
     (let s = broadcast sensitivity (length utility) in
      if length s \<noteq> length utility then Inl LengthMismatch
      else if 0 \<in> set s then Inl DegenerateSensitivity
      else if beta = 0 then Inl ZeroDivisionError
      else if real (length utility) / beta \<le> 0 then Inl MathDomainError
      else if epsilon = 0 then Inl ZeroDivisionError
      else
        (let t = 2 * ln (real (length utility) / beta) / epsilon;
             min_utility = Min (set utility);
             u = map (\<lambda>x. x - min_utility) utility
         in if \<exists>i < length u. \<exists>j < length u. s ! i + s ! j = 0 then Inl ZeroDivisionError
            else (case Exponential_init epsilon 1 (reweighed_utility s u t) None of
                    Inl e \<Rightarrow> Inl e
                  | Inr m \<Rightarrow> Inr \<lparr> mechanism = m \<rparr>)))"

definition GeneralizedExponential_randomise :: "GeneralizedExponential \<Rightarrow> nat \<Rightarrow> nat" where
  "GeneralizedExponential_randomise g idx = Exponential_randomise (mechanism g) idx"

text \<open>
  The selector as the specification words it, to compare with the code: the threshold
  \<open>t\<close>, the utilities shifted so that their minimum is 0, and the reweighted utility of
  candidate \<open>i\<close> as the negated maximum over all candidates \<open>j\<close>.
\<close>

definition spec_t :: "nat \<Rightarrow> real \<Rightarrow> real \<Rightarrow> real" where
  "spec_t k beta epsilon = 2 * ln (real k / beta) / epsilon"

definition spec_shift :: "real list \<Rightarrow> real list" where
  "spec_shift u = map (\<lambda>x. x - Min (set u)) u"

definition spec_w :: "real list \<Rightarrow> real list \<Rightarrow> real \<Rightarrow> nat \<Rightarrow> real" where
  "spec_w s u t i =
     - Max ((\<lambda>j. ((- (u ! i) + s ! i * t) - (- (u ! j) + s ! j * t)) / (s ! i + s ! j))
              ` {j. j < length u})"

section \<open>The private selection of a contribution bound (report/dp.py)\<close>

text \<open>
  \<^verbatim>\<open>_dp_max_utility_selector\<close>. The utilities are computed on numpy arrays, element by
  element; arrays of different lengths are combined only when one of them has length 1
  (it is repeated), otherwise numpy raises \<^verbatim>\<open>ValueError\<close>. \<^verbatim>\<open>0.5 / beta\<close> is a division
  of Python floats. The contribution bounds are passed as the sensitivities. The memo
  cache of the source is left out. The utilities that reach the constructor are numpy
  floats here, so a division by \<open>s\<^sub>i + s\<^sub>j = 0\<close> raises nothing: it yields an infinite
  utility, which the constructor of the exponential mechanism refuses with
  \<^verbatim>\<open>ValueError\<close>; the division by \<open>epsilon\<close> in \<open>t\<close> stays a division of Python floats.
  The model applies for \<open>epsilon \<noteq> 0\<close> and \<open>beta > 0\<close>, where the utilities themselves are
  finite.
\<close>

definition np_combine :: "(real \<Rightarrow> real \<Rightarrow> real) \<Rightarrow> real list \<Rightarrow> real list \<Rightarrow> error + real list" where
  "np_combine f xs ys =
     (if length xs = length ys then Inr (map (\<lambda>(x, y). f x y) (zip xs ys))
      else if length xs = 1 then Inr (map (\<lambda>y. f (hd xs) y) ys)
      else if length ys = 1 then Inr (map (\<lambda>x. f x (hd ys)) xs)
      else Inl ValueError)"

definition dp_max_utility_selector ::
  "real \<Rightarrow> real \<Rightarrow> real list \<Rightarrow> int list \<Rightarrow> error + GeneralizedExponential" where
  "dp_max_utility_selector epsilon beta counts user_contribution_bounds =
     (if beta = 0 then Inl ZeroDivisionError
      else
        (case np_combine (\<lambda>c b. c - b / epsilon * ln (0.5 / beta)) counts
                (map real_of_int user_contribution_bounds) of
           Inl e \<Rightarrow> Inl e
         | Inr utility \<Rightarrow>
             (case GeneralizedExponential_init epsilon beta
                     (Sequence (map real_of_int user_contribution_bounds)) utility of
                Inl ZeroDivisionError \<Rightarrow>
                  if epsilon = 0 then Inl ZeroDivisionError else Inl ValueError
              | Inl e \<Rightarrow> Inl e
              | Inr g \<Rightarrow> Inr g)))"

text \<open>
  The closure \<^verbatim>\<open>internal\<close> returned by the selector:
  \<^verbatim>\<open>user_contribution_bounds[mechanism.randomise()]\<close>; an index outside the list raises
  \<^verbatim>\<open>IndexError\<close>.
\<close>

definition internal :: "int list \<Rightarrow> GeneralizedExponential \<Rightarrow> nat \<Rightarrow> error + int" where
  "internal user_contribution_bounds g idx =
     (let i = GeneralizedExponential_randomise g idx in
      if i < length user_contribution_bounds then Inr (user_contribution_bounds ! i)
      else Inl IndexError)"

section \<open>The shifted inverse mechanism (shifted\_inverse.py)\<close>

text \<open>
  The linear program of \<^verbatim>\<open>_sensitivity\<close>. There is one variable per user (columns
  \<open>0 \<dots> number_of_users - 1\<close>) and one per value (column \<open>number_of_users + value\<close>),
  each within \<open>[0, 1]\<close> (\<^verbatim>\<open>_bounds\<close>). \<^verbatim>\<open>_inequalities_coefficients\<close> has one row
  \<open>w\<^sub>r\<^sub>e\<^sub>c\<^sub>o\<^sub>r\<^sub>d - w\<^sub>u\<^sub>s\<^sub>e\<^sub>r \<le> 0\<close> per user and record of the user, and a last row that
  bounds the sum of the user variables by \<open>users_to_delete\<close>. The objective is the
  scalar product with \<^verbatim>\<open>_objective_coefficients\<close>.
\<close>

definition objective_coefficients :: "DataSet \<Rightarrow> real list" where
  "objective_coefficients d =
     map uminus (replicate (number_of_users d) 0 @ replicate (number_of_values d) 1)"

definition lp_objective :: "DataSet \<Rightarrow> real list \<Rightarrow> real" where
  "lp_objective d w = sum_list (map (\<lambda>(c, x). c * x) (zip (objective_coefficients d) w))"

definition lp_feasible :: "DataSet \<Rightarrow> nat \<Rightarrow> real list \<Rightarrow> bool" where
  "lp_feasible d users_to_delete w \<longleftrightarrow>
     length w = number_of_users d + number_of_values d
     \<and> (\<forall>x \<in> set w. 0 \<le> x \<and> x \<le> 1)
     \<and> (\<forall>user_id < number_of_users d. \<forall>record \<in> set (data d ! user_id).
           w ! (number_of_users d + record) - w ! user_id \<le> 0)
     \<and> (\<Sum>user_id < number_of_users d. w ! user_id) \<le> real users_to_delete"

text \<open>
  \<^verbatim>\<open>optimize.linprog\<close> is library code. Its contract: \<^verbatim>\<open>.fun\<close> is the minimum of the
  objective over the feasible points. \<^verbatim>\<open>_sensitivity\<close> negates it.
\<close>

definition sensitivity :: "DataSet \<Rightarrow> nat \<Rightarrow> real" where
  "sensitivity d users_to_delete =
     - Inf (lp_objective d ` {w. lp_feasible d users_to_delete w})"

text \<open>\<^verbatim>\<open>_round\<close>.\<close>

definition round_value :: "real \<Rightarrow> real \<Rightarrow> real" where
  "round_value v step = of_int \<lceil>v / step\<rceil> * step"

text \<open>The value of \<open>tau\<close>, once its divisions and logarithms are known to be defined.\<close>

definition tau_of :: "real \<Rightarrow> real \<Rightarrow> int \<Rightarrow> real \<Rightarrow> int" where
  "tau_of epsilon error_level upper_bound beta =
     \<lceil>2 / epsilon * ln ((log 10 (of_int upper_bound) / error_level + 1) / beta)\<rceil>"

text \<open>
  The loop \<^verbatim>\<open>for users_to_delete in range(2 * tau)\<close> that appends to \<open>results\<close>;
  \<^verbatim>\<open>math.log\<close> raises on an argument that is not positive.
\<close>

fun results_loop :: "DataSet \<Rightarrow> real \<Rightarrow> nat list \<Rightarrow> real list \<Rightarrow> error + real list" where
  "results_loop d error_level [] results = Inr results"
| "results_loop d error_level (users_to_delete # rest) results =
     (let result_0 = sensitivity d users_to_delete in
      if real (number_of_values d) - result_0 \<le> 0 then Inl MathDomainError
      else
        (let result_1 = log 10 (real (number_of_values d) - result_0);
             result_2 = round_value result_1 error_level
         in results_loop d error_level rest (results @ [result_2])))"

text \<open>
  The first part of \<^verbatim>\<open>shifted_inverse_distinct_count\<close>, up to the list \<open>results\<close> of
  bin edges, with the failures of \<^verbatim>\<open>math.log\<close> and of the divisions in the order in
  which the source evaluates them.
\<close>

definition bin_edges :: "DataSet \<Rightarrow> real \<Rightarrow> real \<Rightarrow> int \<Rightarrow> real \<Rightarrow> error + real list" where
  "bin_edges d epsilon error_level upper_bound beta =
     (if upper_bound \<le> 0 then Inl MathDomainError
      else if epsilon = 0 \<or> error_level = 0 \<or> beta = 0 then Inl ZeroDivisionError
      else if (log 10 (of_int upper_bound) / error_level + 1) / beta \<le> 0 then Inl MathDomainError
      else results_loop d error_level
             [0..<nat (2 * tau_of epsilon error_level upper_bound beta)]
             [log 10 (of_int upper_bound)])"

text \<open>The two loops that fill \<open>utility\<close>.\<close>

definition bin_utility :: "int \<Rightarrow> real list \<Rightarrow> real list" where
  "bin_utility tau results =
     map (\<lambda>i. if int i < tau
               then of_int (- tau - 1 + int i) * (results ! i - results ! (i + 1))
               else of_int (tau - int i) * (results ! i - results ! (i + 1)))
       [0..<nat (2 * tau)]"

text \<open>
  The rest of the function. The two random draws are arguments: \<open>idx\<close> is the index
  drawn by the exponential mechanism and \<open>r\<close>, in \<open>[0, 1)\<close>, places
  \<^verbatim>\<open>np.random.uniform(low, high)\<close> at \<open>low + (high - low) * r\<close>. \<^verbatim>\<open>int\<close> of a positive
  float is its floor.
\<close>

definition shifted_inverse_distinct_count ::
  "DataSet \<Rightarrow> real \<Rightarrow> real \<Rightarrow> int \<Rightarrow> real \<Rightarrow> nat \<Rightarrow> real \<Rightarrow> error + int" where
  "shifted_inverse_distinct_count d epsilon error_level upper_bound beta idx r =
     (case bin_edges d epsilon error_level upper_bound beta of
        Inl e \<Rightarrow> Inl e
      | Inr results \<Rightarrow>
          (let tau = tau_of epsilon error_level upper_bound beta in
           case Exponential_init (epsilon / 2) 1 (bin_utility tau results)
                  (Some [0..<nat (2 * tau)]) of
             Inl e \<Rightarrow> Inl e
           | Inr m \<Rightarrow>
               (let sampled = Exponential_randomise m idx;
                    low = results ! (sampled + 1);
                    high = results ! sampled
                in Inr \<lfloor>10 powr (low + (high - low) * r)\<rfloor>)))"

text \<open>
  The bin edges in closed form, to state what the function returns: edge 0 is
  \<open>log\<^sub>1\<^sub>0 upper_bound\<close>, and edge \<open>k + 1\<close> is \<open>log\<^sub>1\<^sub>0 (number_of_values - sensitivity k)\<close>
  rounded up to a multiple of \<open>error_level\<close>.
\<close>

definition edge :: "DataSet \<Rightarrow> real \<Rightarrow> int \<Rightarrow> nat \<Rightarrow> real" where
  "edge d error_level upper_bound k =
     (if k = 0 then log 10 (of_int upper_bound)
      else round_value (log 10 (real (number_of_values d) - sensitivity d (k - 1))) error_level)"

section \<open>The data set of the unit tests\<close>

definition example_data :: DataSet where
  "example_data = \<lparr> data = [[0, 1], [2, 1]], degree = 2, number_of_values = 3,
                     number_of_records = 4 \<rparr>"

text \<open>
  The selector built from the counts 5 and 7 at the bounds 3 and 5, with
  \<open>epsilon = 1\<close> and \<open>beta = 1/2\<close> (so that \<open>ln (0.5 / beta) = 0\<close> and the utilities are the
  counts).
\<close>

definition example_selector :: GeneralizedExponential where
  "example_selector =
     \<lparr> mechanism =
         \<lparr> mech_epsilon = 1, mech_sensitivity = 1,
           mech_utility = reweighed_utility [3, 5] [0, 2] (2 * ln 4),
           mech_candidates = None \<rparr> \<rparr>"

text \<open>Three users with one value each.\<close>

definition three_users :: DataSet where
  "three_users = \<lparr> data = [[0], [1], [2]], degree = 1, number_of_values = 3,
                    number_of_records = 3 \<rparr>"

text \<open>One user with one value.\<close>

definition one_user :: DataSet where
  "one_user = \<lparr> data = [[0]], degree = 1, number_of_values = 1, number_of_records = 1 \<rparr>"

text \<open>One user who contributed nothing.\<close>

definition empty_user :: DataSet where
  "empty_user = \<lparr> data = [[]], degree = 0, number_of_values = 0, number_of_records = 0 \<rparr>"

section \<open>Contribution bounds that are not positive\<close>

lemma greedy_state_nonpositive: "b \<le> 0 \<Longrightarrow> greedy_state d b = ({}, replicate (length (data d)) 0)"
  by (simp add: greedy_state_def)

lemma matching_nonpositive: "b \<le> 0 \<Longrightarrow> matching_distinct_count d b = Inl ValueError"
proof -
  assume "b \<le> 0"
  then have "vstack (replicate (nat b) m) = Inl ValueError" for m
    by (simp add: vstack_def)
  moreover have "as_matrix d = Inl ValueError \<or> (\<exists>m. as_matrix d = Inr m)"
    by (auto simp: as_matrix_def to_matrix_def csr_matrix_init_def)
  ultimately show ?thesis
    by (auto simp: matching_distinct_count_def)
qed

lemma sampling_loop_zero:
  "\<forall>dr \<in> set draws. dr = [] \<Longrightarrow> sampling_loop xs 0 draws result = Inr result"
proof (induction xs arbitrary: draws result)
  case Nil
  then show ?case by simp
next
  case (Cons r rs)
  have tl: "\<forall>dr \<in> set (tl draws). dr = []"
    using Cons.prems by (cases draws) auto
  have hd: "(case draws of [] \<Rightarrow> [] | dr # _ \<Rightarrow> dr) = []"
    using Cons.prems by (cases draws) auto
  show ?case
    using Cons.IH [OF tl] by (simp add: hd sample_def)
qed

lemma sampling_loop_negative:
  "b < 0 \<Longrightarrow> xs \<noteq> [] \<Longrightarrow> sampling_loop xs b draws result = Inl ValueError"
  by (cases xs) (auto simp: sample_def)

lemma DataSet_init_data: "DataSet_init xs = Inr d \<Longrightarrow> data d = xs \<and> xs \<noteq> []"
  by (auto simp: DataSet_init_def split: if_splits)

lemma example_data_init: "DataSet_init [[0, 1], [2, 1]] = Inr example_data"
  by code_simp

text \<open>
  Claim C2 as stated fails: with the bound 0 the greedy and the sampling estimators
  return the number 0 on the data set of the unit tests instead of failing.
\<close>

theorem invalid_bound_counterexample:
  "DataSet_init [[0, 1], [2, 1]] = Inr example_data
   \<and> greedy_distinct_count example_data 0 = 0
   \<and> sampling_distinct_count example_data 0 [[], []] = Inr 0"
proof -
  have g: "greedy_distinct_count example_data 0 = 0"
    by (simp add: greedy_distinct_count_def greedy_state_def)
  have s: "sampling_distinct_count example_data 0 [[], []] = Inr 0"
    by (simp add: sampling_distinct_count_def sample_def example_data_def)
  from example_data_init g s show ?thesis by blast
qed

section \<open>The generalized exponential selector\<close>

lemma Exponential_init_not_degenerate: "Exponential_init e s u c \<noteq> Inl DegenerateSensitivity"
  by (simp add: Exponential_init_def)

lemma init_degenerate_iff:
  "GeneralizedExponential_init epsilon beta sens utility = Inl DegenerateSensitivity \<longleftrightarrow>
     length (broadcast sens (length utility)) = length utility
     \<and> 0 \<in> set (broadcast sens (length utility))"
  by (auto simp: GeneralizedExponential_init_def Let_def Exponential_init_not_degenerate
      split: sum.splits)

text \<open>
  Claim C7. With sequences of equal length, the constructor fails at the assertion
  \<^verbatim>\<open>0 not in sensitivity\<close> (\<open>DegenerateSensitivity\<close>) if and only if some sensitivity
  is zero; a scalar sensitivity behaves as the sequence that repeats it once per
  utility; sequences of different lengths fail at the length assertion.
\<close>

theorem degenerate_sensitivity:
  "(length s = length utility \<longrightarrow>
      (GeneralizedExponential_init epsilon beta (Sequence s) utility = Inl DegenerateSensitivity
         \<longleftrightarrow> 0 \<in> set s))
   \<and> GeneralizedExponential_init epsilon beta (Scalar x) utility
       = GeneralizedExponential_init epsilon beta (Sequence (replicate (length utility) x)) utility
   \<and> (length s \<noteq> length utility \<longrightarrow>
        GeneralizedExponential_init epsilon beta (Sequence s) utility = Inl LengthMismatch)"
proof (intro conjI impI)
  assume "length s = length utility"
  then show "GeneralizedExponential_init epsilon beta (Sequence s) utility
               = Inl DegenerateSensitivity \<longleftrightarrow> 0 \<in> set s"
    by (simp add: init_degenerate_iff broadcast_def)
next
  show "GeneralizedExponential_init epsilon beta (Scalar x) utility
       = GeneralizedExponential_init epsilon beta (Sequence (replicate (length utility) x)) utility"
    by (simp add: GeneralizedExponential_init_def broadcast_def)
next
  assume "length s \<noteq> length utility"
  then show "GeneralizedExponential_init epsilon beta (Sequence s) utility = Inl LengthMismatch"
    by (simp add: GeneralizedExponential_init_def broadcast_def)
qed

theorem degenerate_sensitivity_witness:
  "length [1, 0 :: real] = length [5, 7 :: real]
   \<and> GeneralizedExponential_init 1 (1 / 2) (Sequence [1, 0]) [5, 7] = Inl DegenerateSensitivity
   \<and> GeneralizedExponential_init 1 (1 / 2) (Scalar 0) [5, 7] = Inl DegenerateSensitivity
   \<and> length [1 :: real] \<noteq> length [5, 7 :: real]
   \<and> GeneralizedExponential_init 1 (1 / 2) (Sequence [1]) [5, 7] = Inl LengthMismatch"
  using degenerate_sensitivity [of "[1, 0]" "[5, 7]" 1 "1 / 2" 0]
    degenerate_sensitivity [of "[0, 0]" "[5, 7]" 1 "1 / 2" 0]
    degenerate_sensitivity [of "[1]" "[5, 7]" 1 "1 / 2" 0]
  by (simp add: numeral_2_eq_2)

lemma reweighed_utility_spec: "reweighed_utility s u t = map (spec_w s u t) [0..<length u]"
proof -
  have "set (map (\<lambda>j. reweigh_term s u t i j) [0..<length u])
      = (\<lambda>j. ((- (u ! i) + s ! i * t) - (- (u ! j) + s ! j * t)) / (s ! i + s ! j)) ` {j. j < length u}"
    for i
    by (auto simp: reweigh_term_def)
  then show ?thesis
    unfolding reweighed_utility_def spec_w_def by (simp only:)
qed

lemma Min_shift:
  assumes "u \<noteq> []"
  shows "Min (set (spec_shift u)) = 0"
proof -
  let ?m = "Min (set u)"
  have fin: "finite (set u)" "set u \<noteq> {}" using assms by auto
  have "set (spec_shift u) = (\<lambda>x. x - ?m) ` set u" by (simp add: spec_shift_def)
  moreover have "Min ((\<lambda>x. x - ?m) ` set u) = 0"
  proof (rule Min_eqI)
    show "finite ((\<lambda>x. x - ?m) ` set u)" by simp
    show "\<And>y. y \<in> (\<lambda>x. x - ?m) ` set u \<Longrightarrow> 0 \<le> y"
      using fin by auto
    show "0 \<in> (\<lambda>x. x - ?m) ` set u"
      using Min_in [OF fin] by force
  qed
  ultimately show ?thesis by simp
qed

lemma init_positive:
  assumes "0 < epsilon" and "0 < beta" and "utility \<noteq> []"
    and "length s = length utility" and "\<forall>x \<in> set s. 0 < x"
  shows "GeneralizedExponential_init epsilon beta (Sequence s) utility =
           Inr \<lparr> mechanism =
                   \<lparr> mech_epsilon = epsilon, mech_sensitivity = 1,
                     mech_utility =
                       reweighed_utility s (map (\<lambda>x. x - Min (set utility)) utility)
                         (2 * ln (real (length utility) / beta) / epsilon),
                     mech_candidates = None \<rparr> \<rparr>"
proof -
  let ?k = "length utility"
  let ?u = "map (\<lambda>x. x - Min (set utility)) utility"
  let ?t = "2 * ln (real ?k / beta) / epsilon"
  have k: "0 < ?k" using assms(3) by simp
  have nz: "0 \<notin> set s" using assms(5) by auto
  have "0 < real ?k / beta" using k assms(2) by (intro divide_pos_pos) simp_all
  then have pos: "\<not> real ?k / beta \<le> 0" by simp
  have sums: "\<not> (\<exists>i < length ?u. \<exists>j < length ?u. s ! i + s ! j = 0)"
  proof
    assume "\<exists>i < length ?u. \<exists>j < length ?u. s ! i + s ! j = 0"
    then obtain i j where ij: "i < ?k" "j < ?k" "s ! i + s ! j = 0" by auto
    then have "0 < s ! i" "0 < s ! j" using assms(4,5) by auto
    with ij(3) show False by linarith
  qed
  have ne: "reweighed_utility s ?u ?t \<noteq> []"
    using k by (simp add: reweighed_utility_def)
  have "GeneralizedExponential_init epsilon beta (Sequence s) utility =
          (case Exponential_init epsilon 1 (reweighed_utility s ?u ?t) None of
                    Inl e \<Rightarrow> Inl e
                  | Inr m \<Rightarrow> Inr \<lparr> mechanism = m \<rparr>)"
    unfolding GeneralizedExponential_init_def Let_def broadcast_def
    using assms(1,2,4) nz pos sums by auto
  also have "\<dots> = Inr \<lparr> mechanism =
                   \<lparr> mech_epsilon = epsilon, mech_sensitivity = 1,
                     mech_utility = reweighed_utility s ?u ?t,
                     mech_candidates = None \<rparr> \<rparr>"
    using assms(1) ne by (simp add: Exponential_init_def)
  finally show ?thesis .
qed

text \<open>
  Claim C6. For \<open>epsilon > 0\<close>, \<open>beta\<close> in \<open>(0, 1)\<close>, \<open>k \<ge> 1\<close> utilities and \<open>k\<close> positive
  sensitivities, the constructor succeeds and hands to the exponential mechanism the
  privacy parameter \<open>epsilon\<close>, the sensitivity 1 and exactly the reweighted utilities
  \<open>w\<^sub>0 \<dots> w\<^sub>k\<^sub>-\<^sub>1\<close> of the specification, computed with \<open>t = 2 ln (k / beta) / epsilon\<close> on the
  utilities shifted so that their minimum is 0.
\<close>

theorem reweighted_utilities:
  assumes "0 < epsilon" and "0 < beta" and "beta < 1" and "utility \<noteq> []"
    and "length s = length utility" and "\<forall>x \<in> set s. 0 < x"
  shows "GeneralizedExponential_init epsilon beta (Sequence s) utility =
           Inr \<lparr> mechanism =
                   \<lparr> mech_epsilon = epsilon, mech_sensitivity = 1,
                     mech_utility =
                       map (spec_w s (spec_shift utility) (spec_t (length utility) beta epsilon))
                         [0..<length utility],
                     mech_candidates = None \<rparr> \<rparr>
         \<and> Min (set (spec_shift utility)) = 0"
proof -
  have "reweighed_utility s (map (\<lambda>x. x - Min (set utility)) utility)
          (2 * ln (real (length utility) / beta) / epsilon)
        = map (spec_w s (spec_shift utility) (spec_t (length utility) beta epsilon))
            [0..<length utility]"
    using reweighed_utility_spec [of s "spec_shift utility" "spec_t (length utility) beta epsilon"]
    by (simp add: spec_shift_def spec_t_def)
  then show ?thesis
    using init_positive [OF assms(1,2,4,5,6)] Min_shift [OF assms(4)] by simp
qed

theorem reweighted_utilities_witness:
  "(0::real) < 1 \<and> (0::real) < 1 / 2 \<and> (1 / 2 :: real) < 1 \<and> [5, 7 :: real] \<noteq> []
   \<and> length [1, 1 :: real] = length [5, 7 :: real]
   \<and> GeneralizedExponential_init 1 (1 / 2) (Sequence [1, 1]) [5, 7] =
         Inr \<lparr> mechanism = \<lparr> mech_epsilon = 1, mech_sensitivity = 1,
                               mech_utility = [- 1, 0], mech_candidates = None \<rparr> \<rparr>"
proof -
  have two: "{j. j < Suc (Suc 0)} = {0, Suc 0}" by auto
  have sh: "spec_shift [5, 7 :: real] = [0, 2]" by (simp add: spec_shift_def)
  have w: "map (spec_w [1, 1] (spec_shift [5, 7]) (spec_t (length [5, 7 :: real]) (1 / 2) 1))
             [0..<length [5, 7 :: real]] = [- 1, 0]"
    by (simp add: sh spec_w_def two upt_rec)
  have h: "\<forall>x \<in> set [1, 1 :: real]. 0 < x" by simp
  show ?thesis
    using reweighted_utilities [of 1 "1 / 2" "[5, 7]" "[1, 1]"] h unfolding w by simp
qed

lemma init_Inr:
  assumes "GeneralizedExponential_init e b sens u = Inr g"
  shows "length (mech_utility (mechanism g)) = length u
       \<and> mech_candidates (mechanism g) = None
       \<and> length (broadcast sens (length u)) = length u"
  using assms
  by (auto simp: GeneralizedExponential_init_def Let_def Exponential_init_def
      reweighed_utility_def split: if_splits sum.splits)

lemma np_combine_length:
  "np_combine f xs ys = Inr zs \<Longrightarrow> length ys = length zs \<or> length ys = 1"
  by (auto simp: np_combine_def split: if_splits)

text \<open>
  Claim C8, as amended. \<^verbatim>\<open>GeneralizedExponential.randomise\<close> returns the index the
  mechanism drew. The sampler returned by \<^verbatim>\<open>_dp_max_utility_selector\<close> turns it into
  the contribution bound at that index, an element of the list of candidate bounds.
\<close>

theorem selector_returns_bound:
  assumes "dp_max_utility_selector epsilon beta counts user_contribution_bounds = Inr g"
    and "idx < length (mech_utility (mechanism g))"
  shows "GeneralizedExponential_randomise g idx = idx
       \<and> internal user_contribution_bounds g idx = Inr (user_contribution_bounds ! idx)
       \<and> user_contribution_bounds ! idx \<in> set user_contribution_bounds"
proof -
  from assms(1) obtain utility where
    g: "GeneralizedExponential_init epsilon beta
          (Sequence (map real_of_int user_contribution_bounds)) utility = Inr g"
    by (auto simp: dp_max_utility_selector_def split: if_splits sum.splits error.splits)
  from init_Inr [OF g] have len: "length (mech_utility (mechanism g)) = length utility"
    and none: "mech_candidates (mechanism g) = None"
    and same: "length user_contribution_bounds = length utility"
    by (simp_all add: broadcast_def)
  have r: "GeneralizedExponential_randomise g idx = idx"
    by (simp add: GeneralizedExponential_randomise_def Exponential_randomise_def none)
  have i: "idx < length user_contribution_bounds"
    using assms(2) len same by simp
  show ?thesis
    using r i by (simp add: internal_def)
qed


lemma example_selector_init:
  "dp_max_utility_selector 1 (1 / 2) [5, 7] [3, 5] = Inr example_selector"
proof -
  have c: "np_combine (\<lambda>c b. c - b / 1 * ln (0.5 / (1 / 2))) [5, 7] (map real_of_int [3, 5])
             = Inr [5, 7]"
    by (simp add: np_combine_def)
  have p: "\<forall>x \<in> set [3, 5 :: real]. 0 < x" by simp
  have "GeneralizedExponential_init 1 (1 / 2) (Sequence [3, 5]) [5, 7] = Inr example_selector"
    using init_positive [of 1 "1 / 2" "[5, 7]" "[3, 5]"] p
    by (simp add: example_selector_def)
  then show ?thesis
    using c by (simp add: dp_max_utility_selector_def)
qed

lemma example_selector_length: "1 < length (mech_utility (mechanism example_selector))"
  by (simp add: example_selector_def reweighed_utility_def)

theorem selector_returns_bound_witness:
  "dp_max_utility_selector 1 (1 / 2) [5, 7] [3, 5] = Inr example_selector
   \<and> 1 < length (mech_utility (mechanism example_selector))
   \<and> GeneralizedExponential_randomise example_selector 1 = 1
   \<and> internal [3, 5] example_selector 1 = Inr 5"
  using selector_returns_bound [OF example_selector_init example_selector_length]
    example_selector_init example_selector_length
  by simp

text \<open>
  Claim C8 as stated fails for \<^verbatim>\<open>GeneralizedExponential.randomise\<close>: for the candidate
  bounds 3 and 5, when the mechanism draws index 1 the method returns 1, which is the
  index and not a candidate bound.
\<close>

theorem randomise_counterexample:
  "dp_max_utility_selector 1 (1 / 2) [5, 7] [3, 5] = Inr example_selector
   \<and> GeneralizedExponential_randomise example_selector 1 = 1
   \<and> (1::int) \<notin> set [3, 5]"
proof -
  have "GeneralizedExponential_randomise example_selector 1 = 1"
    by (simp add: GeneralizedExponential_randomise_def Exponential_randomise_def
        example_selector_def)
  with example_selector_init show ?thesis by simp
qed

section \<open>The shifted inverse mechanism\<close>

lemma zip_zeros_sum: "sum_list (map (\<lambda>(c, x). c * x) (zip (replicate n (0::real)) xs)) = 0"
  by (induction n arbitrary: xs) (auto simp: zip_Cons1 split: list.splits)

lemma zip_ones_sum:
  "length xs = n \<Longrightarrow> sum_list (map (\<lambda>(c, x). c * x) (zip (replicate n (- 1 :: real)) xs)) = - sum_list xs"
  by (induction xs arbitrary: n) auto

lemma lp_objective_drop:
  assumes "length w = number_of_users d + number_of_values d"
  shows "lp_objective d w = - sum_list (drop (number_of_users d) w)"
proof -
  let ?nu = "number_of_users d" and ?nv = "number_of_values d"
  have c: "objective_coefficients d = replicate ?nu 0 @ replicate ?nv (- 1)"
    by (simp add: objective_coefficients_def)
  have "zip (objective_coefficients d) w
      = zip (replicate ?nu 0 @ replicate ?nv (- 1)) (take ?nu w @ drop ?nu w)"
    by (simp add: c)
  also have "\<dots> = zip (replicate ?nu 0) (take ?nu w) @ zip (replicate ?nv (- 1)) (drop ?nu w)"
    using assms by (intro zip_append) simp
  finally show ?thesis
    using assms by (simp add: lp_objective_def zip_zeros_sum zip_ones_sum)
qed

lemma sum_list_le_length: "\<forall>x \<in> set xs. x \<le> (1::real) \<Longrightarrow> sum_list xs \<le> real (length xs)"
  by (induction xs) auto

lemma lp_objective_lower:
  assumes "lp_feasible d k w"
  shows "- real (number_of_values d) \<le> lp_objective d w"
proof -
  have len: "length w = number_of_users d + number_of_values d"
    and b: "\<forall>x \<in> set w. 0 \<le> x \<and> x \<le> 1"
    using assms by (auto simp: lp_feasible_def)
  have "\<forall>x \<in> set (drop (number_of_users d) w). x \<le> 1"
    using b by (auto dest: in_set_dropD)
  from sum_list_le_length [OF this] len
  show ?thesis by (simp add: lp_objective_drop [OF len])
qed

lemma all_ones_feasible:
  assumes "contiguous_values d" and "number_of_users d \<le> k"
  shows "lp_feasible d k (replicate (number_of_users d + number_of_values d) 1)"
proof -
  have "v < number_of_values d"
    if "user_id < number_of_users d" "v \<in> set (data d ! user_id)" for user_id v
  proof -
    have "v \<in> set (concat (data d))"
      using that by (auto simp: number_of_users_def)
    then have "v \<in> {0..<number_of_values d}"
      using assms(1) unfolding contiguous_values_def by (simp only:)
    then show ?thesis by simp
  qed
  then show ?thesis
    using assms(2) by (auto simp: lp_feasible_def)
qed

lemma sensitivity_all_users:
  assumes "contiguous_values d" and "number_of_users d \<le> k"
  shows "sensitivity d k = real (number_of_values d)"
proof -
  let ?w = "replicate (number_of_users d + number_of_values d) (1::real)"
  have "Inf (lp_objective d ` {w. lp_feasible d k w}) = - real (number_of_values d)"
  proof (rule cInf_eq_minimum)
    have "lp_objective d ?w = - real (number_of_values d)"
      by (subst lp_objective_drop) (simp_all add: sum_list_replicate)
    then show "- real (number_of_values d) \<in> lp_objective d ` {w. lp_feasible d k w}"
      using all_ones_feasible [OF assms] by (metis (mono_tags, lifting) image_eqI mem_Collect_eq)
    show "\<And>x. x \<in> lp_objective d ` {w. lp_feasible d k w} \<Longrightarrow> - real (number_of_values d) \<le> x"
      by (auto intro: lp_objective_lower)
  qed
  then show ?thesis by (simp add: sensitivity_def)
qed

lemma results_loop_domain_error:
  "k \<in> set ks \<Longrightarrow> real (number_of_values d) - sensitivity d k \<le> 0
     \<Longrightarrow> results_loop d error_level ks results = Inl MathDomainError"
  by (induction ks arbitrary: results) (auto simp: Let_def)

lemma bin_edges_loop:
  assumes "0 < epsilon" and "0 < error_level" and "1 \<le> upper_bound" and "0 < beta"
  shows "bin_edges d epsilon error_level upper_bound beta =
           results_loop d error_level
             [0..<nat (2 * tau_of epsilon error_level upper_bound beta)]
             [log 10 (of_int upper_bound)]"
proof -
  have "0 \<le> log 10 (of_int upper_bound :: real)"
    using assms(3) by simp
  then have "0 \<le> log 10 (of_int upper_bound) / error_level"
    using assms(2) by simp
  then have "0 < (log 10 (of_int upper_bound) / error_level + 1) / beta"
    using assms(4) by (intro divide_pos_pos) linarith+
  then show ?thesis
    using assms by (simp add: bin_edges_def)
qed

text \<open>
  Claim C10. Whenever the linear program's optimum equals the number of values for some
  \<open>users_to_delete\<close> below \<open>2 tau\<close>, the function raises the domain error of
  \<^verbatim>\<open>math.log\<close> instead of returning an estimate; this happens in particular when
  \<open>2 tau - 1\<close> is at least the number of users, where setting every variable to 1 is
  feasible and optimal.
\<close>

theorem log_of_zero:
  assumes "DataSet_init xs = Inr d" and "contiguous_values d"
    and "0 < epsilon" and "0 < error_level" and "1 \<le> upper_bound"
    and "0 < beta" and "beta < 1"
  shows "((\<exists>k. int k < 2 * tau_of epsilon error_level upper_bound beta
              \<and> sensitivity d k = real (number_of_values d))
          \<longrightarrow> shifted_inverse_distinct_count d epsilon error_level upper_bound beta idx r
                = Inl MathDomainError)
       \<and> (int (number_of_users d) \<le> 2 * tau_of epsilon error_level upper_bound beta - 1
          \<longrightarrow> sensitivity d (number_of_users d) = real (number_of_values d)
            \<and> shifted_inverse_distinct_count d epsilon error_level upper_bound beta idx r
                = Inl MathDomainError)"
proof -
  let ?tau = "tau_of epsilon error_level upper_bound beta"
  have fail: "shifted_inverse_distinct_count d epsilon error_level upper_bound beta idx r
                = Inl MathDomainError"
    if "int k < 2 * ?tau" "sensitivity d k = real (number_of_values d)" for k
  proof -
    have "k \<in> set [0..<nat (2 * ?tau)]" using that(1) by simp
    from results_loop_domain_error [OF this] that(2)
    have "bin_edges d epsilon error_level upper_bound beta = Inl MathDomainError"
      by (simp add: bin_edges_loop [OF assms(3,4,5,6)])
    then show ?thesis by (simp add: shifted_inverse_distinct_count_def)
  qed
  have all: "sensitivity d (number_of_users d) = real (number_of_values d)"
    using sensitivity_all_users [OF assms(2)] by simp
  show ?thesis
    using fail all by (metis zle_diff1_eq)
qed

lemma one_user_init: "DataSet_init [[0]] = Inr one_user"
  by (simp add: DataSet_init_def one_user_def)

lemma tau_one_user: "1 \<le> tau_of 1 1 1 (1 / 2)"
proof -
  have "0 < 2 * ln (2::real)" by simp
  then have "1 \<le> \<lceil>2 * ln (2::real)\<rceil>" by (simp only: one_le_ceiling)
  then show ?thesis by (simp add: tau_of_def)
qed

theorem log_of_zero_witness:
  "DataSet_init [[0]] = Inr one_user \<and> contiguous_values one_user
   \<and> int (number_of_users one_user) \<le> 2 * tau_of 1 1 1 (1 / 2) - 1
   \<and> sensitivity one_user (number_of_users one_user) = real (number_of_values one_user)
   \<and> shifted_inverse_distinct_count one_user 1 1 1 (1 / 2) 0 0 = Inl MathDomainError"
proof -
  have c: "contiguous_values one_user"
    by (auto simp: contiguous_values_def one_user_def)
  have u: "int (number_of_users one_user) \<le> 2 * tau_of 1 1 1 (1 / 2) - 1"
    using tau_one_user by (simp add: number_of_users_def one_user_def)
  show ?thesis
    using log_of_zero [OF one_user_init c, of 1 1 1 "1 / 2" 0 0] c u one_user_init
    by simp
qed

lemma tau_of_positive:
  assumes "0 < epsilon" and "0 < error_level" and "1 \<le> upper_bound"
    and "0 < beta" and "beta < 1"
  shows "1 \<le> tau_of epsilon error_level upper_bound beta"
proof -
  have "0 \<le> log 10 (of_int upper_bound :: real)"
    using assms(3) by simp
  then have "0 \<le> log 10 (of_int upper_bound) / error_level"
    using assms(2) by simp
  then have "1 \<le> log 10 (of_int upper_bound) / error_level + 1" by simp
  moreover have "1 < 1 / beta" using assms(4,5) by simp
  ultimately have "1 * 1 < (log 10 (of_int upper_bound) / error_level + 1) * (1 / beta)"
    by (intro mult_le_less_imp_less) simp_all
  then have "0 < ln ((log 10 (of_int upper_bound) / error_level + 1) / beta)"
    by simp
  then have "0 < 2 / epsilon * ln ((log 10 (of_int upper_bound) / error_level + 1) / beta)"
    using assms(1) by simp
  then show ?thesis
    unfolding tau_of_def by (simp only: one_le_ceiling)
qed

lemma between:
  assumes "0 \<le> r" and "r < 1"
  shows "min low high \<le> low + (high - low) * r" and "low + (high - low) * r \<le> max low (high::real)"
proof -
  have e: "low + (high - low) * r = (1 - r) * low + r * high" by (simp add: algebra_simps)
  have "(1 - r) * min low high \<le> (1 - r) * low" "r * min low high \<le> r * high"
    using assms by (auto intro!: mult_left_mono)
  then have "(1 - r) * min low high + r * min low high \<le> (1 - r) * low + r * high"
    by linarith
  then show "min low high \<le> low + (high - low) * r"
    unfolding e by (simp add: algebra_simps)
  have "(1 - r) * low \<le> (1 - r) * max low high" "r * high \<le> r * max low high"
    using assms by (auto intro!: mult_left_mono)
  then have "(1 - r) * low + r * high \<le> (1 - r) * max low high + r * max low high"
    by linarith
  then show "low + (high - low) * r \<le> max low high"
    unfolding e by (simp add: algebra_simps)
qed

lemma results_loop_edges:
  "\<forall>k \<in> set ks. sensitivity d k < real (number_of_values d) \<Longrightarrow>
     results_loop d error_level ks results =
       Inr (results @ map (\<lambda>k. round_value (log 10 (real (number_of_values d) - sensitivity d k))
                                  error_level) ks)"
  by (induction ks arbitrary: results) (simp_all add: Let_def)

lemma bin_edges_closed:
  assumes "0 < epsilon" and "0 < error_level" and "1 \<le> upper_bound" and "0 < beta"
    and "\<forall>k. int k < 2 * tau_of epsilon error_level upper_bound beta
            \<longrightarrow> sensitivity d k < real (number_of_values d)"
  shows "bin_edges d epsilon error_level upper_bound beta =
           Inr (map (edge d error_level upper_bound)
                  [0..<nat (2 * tau_of epsilon error_level upper_bound beta) + 1])"
proof -
  let ?n = "nat (2 * tau_of epsilon error_level upper_bound beta)"
  have "\<forall>k \<in> set [0..<?n]. sensitivity d k < real (number_of_values d)"
    using assms(5) by auto
  from results_loop_edges [OF this]
  have "bin_edges d epsilon error_level upper_bound beta =
          Inr ([log 10 (of_int upper_bound)]
               @ map (\<lambda>k. round_value (log 10 (real (number_of_values d) - sensitivity d k))
                            error_level) [0..<?n])"
    by (simp add: bin_edges_loop [OF assms(1-4)])
  also have "[log 10 (of_int upper_bound)]
               @ map (\<lambda>k. round_value (log 10 (real (number_of_values d) - sensitivity d k))
                            error_level) [0..<?n]
           = map (edge d error_level upper_bound) [0..<?n + 1]"
  proof (rule nth_equalityI)
    show "length ([log 10 (of_int upper_bound)]
               @ map (\<lambda>k. round_value (log 10 (real (number_of_values d) - sensitivity d k))
                            error_level) [0..<?n])
        = length (map (edge d error_level upper_bound) [0..<?n + 1])" by simp
  next
    fix i assume "i < length ([log 10 (of_int upper_bound)]
               @ map (\<lambda>k. round_value (log 10 (real (number_of_values d) - sensitivity d k))
                            error_level) [0..<?n])"
    then have i: "i < ?n + 1" by simp
    show "([log 10 (of_int upper_bound)]
               @ map (\<lambda>k. round_value (log 10 (real (number_of_values d) - sensitivity d k))
                            error_level) [0..<?n]) ! i
        = map (edge d error_level upper_bound) [0..<?n + 1] ! i"
    proof (cases i)
      case 0
      then show ?thesis by (simp add: edge_def nth_append del: upt_Suc)
    next
      case (Suc j)
      with i have "j < ?n" by simp
      with Suc i show ?thesis
        by (simp add: edge_def nth_append nth_map_upt del: upt_Suc)
    qed
  qed
  finally show ?thesis .
qed

text \<open>
  Claim C9, as amended. For \<open>epsilon > 0\<close>, \<open>error_level > 0\<close>, \<open>upper_bound \<ge> 1\<close> and
  \<open>beta\<close> in \<open>(0, 1)\<close>, when no \<open>sensitivity k\<close> with \<open>k < 2 tau\<close> reaches the number of
  values, the function returns for every outcome of the two random draws the integer
  part of \<open>10\<^sup>U\<close>, where \<open>U\<close> lies between the two edges of the selected bin; the lower
  edge is \<open>log\<^sub>1\<^sub>0 (number_of_values - sensitivity idx)\<close> rounded up to a multiple of
  \<open>error_level\<close>. The result is a non-negative integer, at least 1 when both edges are
  non-negative, and at most \<open>upper_bound\<close> when both edges are at most
  \<open>log\<^sub>1\<^sub>0 upper_bound\<close>; the edges are not clamped to that range.
\<close>

theorem shifted_inverse_range:
  assumes "0 < epsilon" and "0 < error_level" and "1 \<le> upper_bound"
    and "0 < beta" and "beta < 1"
    and "\<forall>k. int k < 2 * tau_of epsilon error_level upper_bound beta
            \<longrightarrow> sensitivity d k < real (number_of_values d)"
    and "int idx < 2 * tau_of epsilon error_level upper_bound beta"
    and "0 \<le> r" and "r < 1"
  shows "\<exists>low high U n.
           low = edge d error_level upper_bound (idx + 1)
           \<and> high = edge d error_level upper_bound idx
           \<and> (\<exists>z. low = of_int z * error_level)
           \<and> U = low + (high - low) * r \<and> min low high \<le> U \<and> U \<le> max low high
           \<and> n = \<lfloor>10 powr U\<rfloor>
           \<and> shifted_inverse_distinct_count d epsilon error_level upper_bound beta idx r = Inr n
           \<and> 0 \<le> n
           \<and> (0 \<le> low \<and> 0 \<le> high \<longrightarrow> 1 \<le> n)
           \<and> (low \<le> log 10 (of_int upper_bound) \<and> high \<le> log 10 (of_int upper_bound)
                \<longrightarrow> n \<le> upper_bound)"
proof -
  let ?tau = "tau_of epsilon error_level upper_bound beta"
  let ?results = "map (edge d error_level upper_bound) [0..<nat (2 * ?tau) + 1]"
  let ?low = "edge d error_level upper_bound (idx + 1)"
  let ?high = "edge d error_level upper_bound idx"
  let ?U = "?low + (?high - ?low) * r"
  have edges: "bin_edges d epsilon error_level upper_bound beta = Inr ?results"
    by (rule bin_edges_closed [OF assms(1-4,6)])
  have tau: "1 \<le> ?tau" by (rule tau_of_positive [OF assms(1-5)])
  have i: "idx < nat (2 * ?tau)" using assms(7) by simp
  have lo: "?results ! (idx + 1) = ?low" and hi: "?results ! idx = ?high"
    using i by (simp_all add: nth_map_upt del: upt_Suc)
  have ne: "bin_utility ?tau ?results \<noteq> []"
    using tau by (simp add: bin_utility_def)
  have len: "length (bin_utility ?tau ?results) = nat (2 * ?tau)"
    by (simp add: bin_utility_def)
  have m: "Exponential_init (epsilon / 2) 1 (bin_utility ?tau ?results) (Some [0..<nat (2 * ?tau)])
         = Inr \<lparr> mech_epsilon = epsilon / 2, mech_sensitivity = 1,
                   mech_utility = bin_utility ?tau ?results,
                   mech_candidates = Some [0..<nat (2 * ?tau)] \<rparr>"
    using assms(1) ne len by (simp add: Exponential_init_def)
  have s: "Exponential_randomise \<lparr> mech_epsilon = epsilon / 2, mech_sensitivity = 1,
                   mech_utility = bin_utility ?tau ?results,
                   mech_candidates = Some [0..<nat (2 * ?tau)] \<rparr> idx = idx"
    using i by (simp add: Exponential_randomise_def)
  have eq: "shifted_inverse_distinct_count d epsilon error_level upper_bound beta idx r
          = Inr \<lfloor>10 powr ?U\<rfloor>"
    unfolding shifted_inverse_distinct_count_def edges
    by (simp only: sum.case Let_def m s lo hi)
  have mult: "\<exists>z. ?low = of_int z * error_level"
    by (simp add: edge_def round_value_def)
  have b1: "min ?low ?high \<le> ?U" by (rule between(1) [OF assms(8,9)])
  have b2: "?U \<le> max ?low ?high" by (rule between(2) [OF assms(8,9)])
  have n0: "0 \<le> \<lfloor>10 powr ?U\<rfloor>" by simp
  have n1: "1 \<le> \<lfloor>10 powr ?U\<rfloor>" if "0 \<le> ?low" "0 \<le> ?high"
  proof -
    have "0 \<le> min ?low ?high" using that by simp
    also have "\<dots> \<le> ?U" by (rule b1)
    finally have "(1::real) \<le> 10 powr ?U" by (simp add: ge_one_powr_ge_zero)
    then show ?thesis by (simp add: le_floor_iff)
  qed
  have n2: "\<lfloor>10 powr ?U\<rfloor> \<le> upper_bound"
    if "?low \<le> log 10 (of_int upper_bound)" "?high \<le> log 10 (of_int upper_bound)"
  proof -
    have "?U \<le> max ?low ?high" by (rule b2)
    also have "\<dots> \<le> log 10 (of_int upper_bound)" using that by simp
    finally have "10 powr ?U \<le> 10 powr log 10 (of_int upper_bound)"
      by (simp only: powr_le_cancel_iff)
    also have "\<dots> = of_int upper_bound" using assms(3) by simp
    finally have "\<lfloor>10 powr ?U\<rfloor> \<le> \<lfloor>of_int upper_bound :: real\<rfloor>" by (rule floor_mono)
    then show ?thesis by simp
  qed
  from eq mult b1 b2 n0 n1 n2 show ?thesis by blast
qed

lemma three_users_init: "DataSet_init [[0], [1], [2]] = Inr three_users"
  by code_simp

lemma three_users_feasible:
  "lp_feasible three_users k w \<longleftrightarrow>
     (\<exists>a b c e f g. w = [a, b, c, e, f, g]
        \<and> 0 \<le> a \<and> a \<le> 1 \<and> 0 \<le> b \<and> b \<le> 1 \<and> 0 \<le> c \<and> c \<le> 1
        \<and> 0 \<le> e \<and> e \<le> 1 \<and> 0 \<le> f \<and> f \<le> 1 \<and> 0 \<le> g \<and> g \<le> 1
        \<and> e \<le> a \<and> f \<le> b \<and> g \<le> c \<and> a + b + c \<le> real k)"
proof -
  have three: "{..<3::nat} = {0, 1, 2}" by auto
  have len: "length w = 6 \<longleftrightarrow> (\<exists>a b c e f g. w = [a, b, c, e, f, g])"
    by (auto simp: numeral_eq_Suc length_Suc_conv)
  show ?thesis
  proof
    assume h: "lp_feasible three_users k w"
    then have "length w = 6"
      by (simp add: lp_feasible_def three_users_def number_of_users_def)
    then obtain a b c e f g where w: "w = [a, b, c, e, f, g]"
      using len by blast
    from h show "\<exists>a b c e f g. w = [a, b, c, e, f, g]
        \<and> 0 \<le> a \<and> a \<le> 1 \<and> 0 \<le> b \<and> b \<le> 1 \<and> 0 \<le> c \<and> c \<le> 1
        \<and> 0 \<le> e \<and> e \<le> 1 \<and> 0 \<le> f \<and> f \<le> 1 \<and> 0 \<le> g \<and> g \<le> 1
        \<and> e \<le> a \<and> f \<le> b \<and> g \<le> c \<and> a + b + c \<le> real k"
      unfolding w
      by (simp add: lp_feasible_def three_users_def number_of_users_def three
          All_less_Suc numeral_3_eq_3 add.assoc)
  next
    assume "\<exists>a b c e f g. w = [a, b, c, e, f, g]
        \<and> 0 \<le> a \<and> a \<le> 1 \<and> 0 \<le> b \<and> b \<le> 1 \<and> 0 \<le> c \<and> c \<le> 1
        \<and> 0 \<le> e \<and> e \<le> 1 \<and> 0 \<le> f \<and> f \<le> 1 \<and> 0 \<le> g \<and> g \<le> 1
        \<and> e \<le> a \<and> f \<le> b \<and> g \<le> c \<and> a + b + c \<le> real k"
    then obtain a b c e f g where w: "w = [a, b, c, e, f, g]"
      and h: "0 \<le> a" "a \<le> 1" "0 \<le> b" "b \<le> 1" "0 \<le> c" "c \<le> 1"
        "0 \<le> e" "e \<le> 1" "0 \<le> f" "f \<le> 1" "0 \<le> g" "g \<le> 1"
        "e \<le> a" "f \<le> b" "g \<le> c" "a + b + c \<le> real k"
      by blast
    show "lp_feasible three_users k w"
      unfolding w using h
      by (simp add: lp_feasible_def three_users_def number_of_users_def three
          All_less_Suc numeral_3_eq_3 add.assoc)
  qed
qed

lemma three_users_objective:
  "lp_objective three_users [a, b, c, e, f, g] = - (e + f + g)"
  by (simp add: lp_objective_def objective_coefficients_def three_users_def
      number_of_users_def numeral_3_eq_3)

lemma three_users_sensitivity_0: "sensitivity three_users 0 = 0"
proof -
  have "Inf (lp_objective three_users ` {w. lp_feasible three_users 0 w}) = 0"
  proof (rule cInf_eq_minimum)
    have "lp_feasible three_users 0 [0, 0, 0, 0, 0, 0]"
      by (simp add: three_users_feasible)
    moreover have "lp_objective three_users [0, 0, 0, 0, 0, 0] = 0"
      by (simp add: three_users_objective)
    ultimately show "0 \<in> lp_objective three_users ` {w. lp_feasible three_users 0 w}"
      by (metis (mono_tags, lifting) image_eqI mem_Collect_eq)
    show "\<And>x. x \<in> lp_objective three_users ` {w. lp_feasible three_users 0 w} \<Longrightarrow> 0 \<le> x"
      by (auto simp: three_users_feasible three_users_objective)
  qed
  then show ?thesis by (simp add: sensitivity_def)
qed

lemma three_users_sensitivity_1: "sensitivity three_users (Suc 0) = 1"
proof -
  have "Inf (lp_objective three_users ` {w. lp_feasible three_users (Suc 0) w}) = - 1"
  proof (rule cInf_eq_minimum)
    have "lp_feasible three_users (Suc 0) [1, 0, 0, 1, 0, 0]"
      by (simp add: three_users_feasible)
    moreover have "lp_objective three_users [1, 0, 0, 1, 0, 0] = - 1"
      by (simp add: three_users_objective)
    ultimately show "- 1 \<in> lp_objective three_users ` {w. lp_feasible three_users (Suc 0) w}"
      by (metis (mono_tags, lifting) image_eqI mem_Collect_eq)
    show "\<And>x. x \<in> lp_objective three_users ` {w. lp_feasible three_users (Suc 0) w} \<Longrightarrow> - 1 \<le> x"
      by (auto simp: three_users_feasible three_users_objective)
  qed
  then show ?thesis by (simp add: sensitivity_def)
qed


lemma log_10_3: "0 < log 10 (3::real)" "log 10 (3::real) \<le> 1"
  by simp_all

lemma log_10_2: "0 < log 10 (2::real)" "log 10 (2::real) \<le> 1"
  by simp_all

lemma tau_three_users: "tau_of 4 1 3 (1 / 2) = 1"
proof -
  let ?y = "(log 10 3 + 1) * (2::real)"
  have gen: "1 < (x + 1) * 2 \<and> (x + 1) * 2 \<le> 4" if "0 < x" "x \<le> 1" for x :: real
    using that by (simp add: distrib_right)
  have y1: "1 < ?y" and y2: "?y \<le> 4"
    using gen [OF log_10_3] by blast+
  have "0 < ?y" using y1 by (rule less_trans [OF zero_less_one])
  then have "ln ?y \<le> ln 4" using y2 by (simp only: ln_le_cancel_iff zero_less_numeral)
  also have "ln (4::real) = ln (2 ^ 2)" by simp
  also have "\<dots> = 2 * ln 2" using ln_realpow [of 2 2] by simp
  also have "\<dots> \<le> 2" using ln_2_less_1 by simp
  finally have u: "ln ?y \<le> 2" .
  have l: "0 < ln ?y" using y1 by (rule ln_gt_zero)
  have "\<lceil>ln ?y / 2\<rceil> = 1"
    using l u by (simp add: ceiling_eq_iff)
  then show ?thesis by (simp add: tau_of_def)
qed

lemma three_users_edges: "bin_edges three_users 4 1 3 (1 / 2) = Inr [log 10 3, 1, 1]"
proof -
  have c3: "\<lceil>log 10 (3::real)\<rceil> = 1" using log_10_3 by (simp add: ceiling_eq_iff)
  have c2: "\<lceil>log 10 (2::real)\<rceil> = 1" using log_10_2 by (simp add: ceiling_eq_iff)
  have nv: "number_of_values three_users = 3" by (simp add: three_users_def)
  have "bin_edges three_users 4 1 3 (1 / 2)
      = results_loop three_users 1 [0..<nat (2 * tau_of 4 1 3 (1 / 2))] [log 10 (of_int 3)]"
    by (rule bin_edges_loop) simp_all
  also have "[0..<nat (2 * tau_of 4 1 3 (1 / 2))] = [0, Suc 0]"
    by (simp add: tau_three_users upt_rec)
  also have "results_loop three_users 1 [0, Suc 0] [log 10 (of_int 3)] = Inr [log 10 3, 1, 1]"
    by (simp add: three_users_sensitivity_0 three_users_sensitivity_1 nv round_value_def c3 c2)
  finally show ?thesis .
qed

text \<open>
  Claim C9 as stated fails: for three users with one value each, \<open>upper_bound = 3\<close>
  (the number of values), \<open>error_level = 1\<close>, \<open>epsilon = 4\<close> and \<open>beta = 1/2\<close>, the bin edges
  are \<open>log\<^sub>1\<^sub>0 3, 1, 1\<close>, and when the mechanism selects bin 1 the result is 10.
\<close>

theorem shifted_inverse_counterexample:
  "DataSet_init [[0], [1], [2]] = Inr three_users
   \<and> shifted_inverse_distinct_count three_users 4 1 3 (1 / 2) 1 0 = Inr 10
   \<and> \<not> (10::int) \<le> 3"
proof -
  have "shifted_inverse_distinct_count three_users 4 1 3 (1 / 2) 1 0 = Inr 10"
    by (simp add: shifted_inverse_distinct_count_def three_users_edges tau_three_users
        bin_utility_def Exponential_init_def Exponential_randomise_def upt_rec)
  with three_users_init show ?thesis by simp
qed

theorem shifted_inverse_range_witness:
  "int 0 < 2 * tau_of 4 1 3 (1 / 2)
   \<and> sensitivity three_users 0 < real (number_of_values three_users)
   \<and> sensitivity three_users (Suc 0) < real (number_of_values three_users)
   \<and> edge three_users 1 3 0 = log 10 3 \<and> edge three_users 1 3 1 = 1
   \<and> shifted_inverse_distinct_count three_users 4 1 3 (1 / 2) 0 0 = Inr 10"
proof -
  have t: "int 0 < 2 * tau_of 4 1 3 (1 / 2)" by (simp add: tau_three_users)
  have nv: "number_of_values three_users = 3" by (simp add: three_users_def)
  have s0: "sensitivity three_users 0 < real (number_of_values three_users)"
    by (simp add: three_users_sensitivity_0 nv)
  have s1: "sensitivity three_users (Suc 0) < real (number_of_values three_users)"
    by (simp add: three_users_sensitivity_1 nv)
  have all: "\<forall>k. int k < 2 * tau_of 4 1 3 (1 / 2)
               \<longrightarrow> sensitivity three_users k < real (number_of_values three_users)"
  proof (intro allI impI)
    fix k assume "int k < 2 * tau_of 4 1 3 (1 / 2)"
    then have "k = 0 \<or> k = Suc 0" by (simp add: tau_three_users) linarith
    with s0 s1 show "sensitivity three_users k < real (number_of_values three_users)" by blast
  qed
  have c3: "\<lceil>log 10 (3::real)\<rceil> = 1" using log_10_3 by (simp add: ceiling_eq_iff)
  have e0: "edge three_users 1 3 0 = log 10 3" by (simp add: edge_def)
  have e1: "edge three_users 1 3 1 = 1"
    by (simp add: edge_def round_value_def three_users_sensitivity_0 nv c3)
  have e1': "edge three_users 1 3 (Suc 0) = 1" using e1 by simp
  have "shifted_inverse_distinct_count three_users 4 1 3 (1 / 2) 0 0 = Inr 10"
    using shifted_inverse_range [of 4 1 3 "1 / 2" three_users 0 0, OF _ _ _ _ _ all t]
    by (simp add: e0 e1')
  with t s0 s1 e0 e1 show ?thesis by blast
qed

section \<open>Bounded matchings\<close>

lemma finite_pairs: "finite (pairs xs)"
proof -
  have "pairs xs \<subseteq> {..<length xs} \<times> set (concat xs)"
    using nth_mem by (fastforce simp: pairs_def)
  then show ?thesis by (rule finite_subset) simp
qed

lemma bounded_matching_empty: "bounded_matching P b {}"
  by (simp add: bounded_matching_def)

lemma finite_bounded_matchings: "finite P \<Longrightarrow> finite {N. bounded_matching P b N}"
  by (rule finite_subset [of _ "Pow P"]) (auto simp: bounded_matching_def)

lemma optimum_ge: "finite P \<Longrightarrow> bounded_matching P b N \<Longrightarrow> card N \<le> optimum P b"
  unfolding optimum_def by (intro Max_ge finite_imageI finite_bounded_matchings) auto

lemma optimum_attained:
  assumes "finite P"
  shows "\<exists>N. bounded_matching P b N \<and> card N = optimum P b"
proof -
  have "card ` {N. bounded_matching P b N} \<noteq> {}"
    using bounded_matching_empty by blast
  then have "Max (card ` {N. bounded_matching P b N}) \<in> card ` {N. bounded_matching P b N}"
    by (intro Max_in finite_imageI finite_bounded_matchings assms)
  then show ?thesis by (auto simp: optimum_def)
qed

lemma optimum_le:
  assumes "finite P" and "\<And>N. bounded_matching P b N \<Longrightarrow> card N \<le> k"
  shows "optimum P b \<le> k"
proof -
  from optimum_attained [OF assms(1), of b]
  obtain N where "bounded_matching P b N" "card N = optimum P b" by blast
  with assms(2) [of N] show ?thesis by simp
qed

lemma assignment_bound:
  assumes "finite P" and "finite S" and "\<forall>v \<in> S. (g v, v) \<in> P"
    and "\<forall>i. card {v \<in> S. g v = i} \<le> b"
  shows "card S \<le> optimum P b"
proof -
  let ?N = "(\<lambda>v. (g v, v)) ` S"
  have inj: "inj_on (\<lambda>v. (g v, v)) S" by (rule inj_onI) simp
  have sub: "?N \<subseteq> P" using assms(3) by blast
  have snd: "inj_on snd ?N" by (rule inj_onI) auto
  have "{v. (i, v) \<in> ?N} = {v \<in> S. g v = i}" for i by blast
  then have "\<forall>i. card {v. (i, v) \<in> ?N} \<le> b" using assms(4) by simp
  with sub snd have "bounded_matching P b ?N"
    unfolding bounded_matching_def by blast
  from optimum_ge [OF assms(1) this] show ?thesis
    by (simp add: card_image [OF inj])
qed

lemma bounded_matching_values:
  assumes "bounded_matching P b N" and "finite P"
  shows "card N = card (snd ` N)"
  using assms by (simp add: bounded_matching_def card_image)

section \<open>The matrices of a data set\<close>

lemma pairsI: "i < length xs \<Longrightarrow> v \<in> set (xs ! i) \<Longrightarrow> (i, v) \<in> pairs xs"
  by (simp add: pairs_def)

lemma pairsD: "(i, v) \<in> pairs xs \<Longrightarrow> i < length xs \<and> v \<in> set (xs ! i)"
  by (simp add: pairs_def)

lemma enumerate_entries:
  "set (concat (map (\<lambda>(index, row). map (\<lambda>item. (f index, g item, w0)) row) (enumerate 0 xs)))
     = (\<lambda>(i, v). (f i, g v, w0)) ` pairs xs"
  (is "?L = ?R")
proof (intro set_eqI iffI)
  fix t assume "t \<in> ?L"
  then obtain y where y: "y \<in> set (enumerate 0 xs)"
    and t: "t \<in> set ((\<lambda>(index, row). map (\<lambda>item. (f index, g item, w0)) row) y)"
    unfolding set_concat set_map by blast
  obtain index row where yy: "y = (index, row)" by (cases y)
  from y have ir: "index < length xs" "row = xs ! index"
    unfolding yy by (simp_all add: in_set_enumerate_eq)
  from t have "t \<in> (\<lambda>item. (f index, g item, w0)) ` set row"
    unfolding yy by simp
  then obtain item where it: "item \<in> set row" "t = (f index, g item, w0)" by blast
  have "(index, item) \<in> pairs xs"
    using ir it(1) by (intro pairsI) simp_all
  then show "t \<in> ?R"
    unfolding it(2) by (rule image_eqI [rotated]) simp
next
  fix t assume "t \<in> ?R"
  then obtain i v where iv: "(i, v) \<in> pairs xs" and t: "t = (f i, g v, w0)" by auto
  from pairsD [OF iv] have i: "i < length xs" and v: "v \<in> set (xs ! i)" by blast+
  have y: "(i, xs ! i) \<in> set (enumerate 0 xs)"
    using i by (simp add: in_set_enumerate_eq)
  have "t \<in> set ((\<lambda>(index, row). map (\<lambda>item. (f index, g item, w0)) row) (i, xs ! i))"
    using v t by simp
  with y show "t \<in> ?L"
    unfolding set_concat set_map by blast
qed

lemma enumerate_pairs:
  "(\<lambda>(r, c, w). (r, c)) ` set (concat (map (\<lambda>(index, row). map (\<lambda>item. (index, item, w0)) row) (enumerate 0 xs)))
     = pairs xs"
proof -
  have "(\<lambda>(r, c, w). (r, c)) ` ((\<lambda>(i, v). (i, v, w0)) ` pairs xs) = pairs xs"
    by (simp add: image_image case_prod_unfold)
  then show ?thesis
    using enumerate_entries [of "\<lambda>i. i" "\<lambda>v. v" w0 xs] by simp
qed

lemma csr_matrix_init_Inr:
  "csr_matrix_init ts = Inr m \<Longrightarrow>
     ts \<noteq> [] \<and> triples m = ts \<and> nrows m = Max (set (map fst ts)) + 1
     \<and> ncols m = Max (set (map (fst \<circ> snd) ts)) + 1"
  by (auto simp: csr_matrix_init_def split: if_splits)

lemma csr_matrix_init_Inl: "csr_matrix_init ts = Inl e \<Longrightarrow> ts = [] \<and> e = ValueError"
  by (auto simp: csr_matrix_init_def split: if_splits)

lemma csr_matrix_init_nonempty: "ts \<noteq> [] \<Longrightarrow> \<exists>m. csr_matrix_init ts = Inr m"
  by (simp add: csr_matrix_init_def)

lemma to_matrix_Inr:
  assumes "to_matrix xs = Inr m"
  shows "stored m = pairs xs" and "pairs xs \<noteq> {}" and "\<forall>(r, c) \<in> pairs xs. r < nrows m"
proof -
  define T where "T = concat (map (\<lambda>(index, row). map (\<lambda>item. (index, item, 1::int)) row) (enumerate 0 xs))"
  have pos: "(\<lambda>(r, c, w). (r, c)) ` set T = pairs xs"
    unfolding T_def by (rule enumerate_pairs)
  from assms have "csr_matrix_init T = Inr m"
    by (simp only: to_matrix_def T_def)
  from csr_matrix_init_Inr [OF this]
  have ne: "T \<noteq> []" and tr: "triples m = T" and nr: "nrows m = Max (set (map fst T)) + 1"
    by blast+
  show s: "stored m = pairs xs"
    using pos by (simp add: stored_def tr)
  have "set T \<noteq> {}" using ne by simp
  then have "(\<lambda>(r, c, w). (r, c)) ` set T \<noteq> {}" by blast
  then show "pairs xs \<noteq> {}" using pos by simp
  show "\<forall>(r, c) \<in> pairs xs. r < nrows m"
  proof (clarify)
    fix r c assume "(r, c) \<in> pairs xs"
    then have "(r, c) \<in> (\<lambda>(r, c, w). (r, c)) ` set T"
      using pos by simp
    then have "r \<in> set (map fst T)" by force
    then have "r \<le> Max (set (map fst T))" by (intro Max_ge) auto
    then show "r < nrows m" by (simp add: nr)
  qed
qed

lemma to_matrix_Inl:
  assumes "to_matrix xs = Inl e"
  shows "pairs xs = {}" and "e = ValueError"
proof -
  define T where "T = concat (map (\<lambda>(index, row). map (\<lambda>item. (index, item, 1::int)) row) (enumerate 0 xs))"
  have pos: "(\<lambda>(r, c, w). (r, c)) ` set T = pairs xs"
    unfolding T_def by (rule enumerate_pairs)
  from assms have "csr_matrix_init T = Inl e"
    by (simp only: to_matrix_def T_def)
  from csr_matrix_init_Inl [OF this] have "T = []" and e: "e = ValueError" by blast+
  then show "pairs xs = {}" using pos by simp
  show "e = ValueError" by (rule e)
qed

lemma to_matrix_nonempty:
  assumes "pairs xs \<noteq> {}"
  shows "\<exists>m. to_matrix xs = Inr m"
proof (cases "to_matrix xs")
  case (Inl e)
  from to_matrix_Inl(1) [OF this] assms show ?thesis by simp
next
  case (Inr m)
  then show ?thesis by blast
qed

lemma shifted_positions:
  "(\<lambda>(r, c, w). (r, c)) ` set (map (\<lambda>(r, c, w). (r + off, c, w)) ts)
     = (\<lambda>(r, c). (r + off, c)) ` (\<lambda>(r, c, w). (r, c)) ` set ts"
  by (induction ts) auto

lemma stack_triples_replicate:
  "(\<lambda>(r, c, w). (r, c)) ` set (stack_triples (replicate k m) off)
     = {(r + off + j * nrows m, c) | r c j. (r, c) \<in> stored m \<and> j < k}"
proof (induction k arbitrary: off)
  case 0
  then show ?case by simp
next
  case (Suc k)
  have st: "stored m = (\<lambda>(r, c, w). (r, c)) ` set (triples m)"
    by (simp add: stored_def)
  have "stack_triples (replicate (Suc k) m) off
      = map (\<lambda>(r, c, w). (r + off, c, w)) (triples m)
        @ stack_triples (replicate k m) (off + nrows m)"
    by simp
  then have "(\<lambda>(r, c, w). (r, c)) ` set (stack_triples (replicate (Suc k) m) off)
      = (\<lambda>(r, c, w). (r, c)) ` set (map (\<lambda>(r, c, w). (r + off, c, w)) (triples m))
        \<union> (\<lambda>(r, c, w). (r, c)) ` set (stack_triples (replicate k m) (off + nrows m))"
    by (simp only: set_append image_Un)
  also have "\<dots> = (\<lambda>(r, c). (r + off, c)) ` stored m
        \<union> {(r + (off + nrows m) + j * nrows m, c) | r c j. (r, c) \<in> stored m \<and> j < k}"
    by (simp only: shifted_positions Suc.IH st)
  also have "\<dots> = {(r + off + j * nrows m, c) | r c j. (r, c) \<in> stored m \<and> j < Suc k}"
  proof (intro set_eqI iffI)
    fix e assume "e \<in> (\<lambda>(r, c). (r + off, c)) ` stored m
        \<union> {(r + (off + nrows m) + j * nrows m, c) | r c j. (r, c) \<in> stored m \<and> j < k}"
    then consider r c where "(r, c) \<in> stored m" "e = (r + off + 0 * nrows m, c)"
      | r c j where "(r, c) \<in> stored m" "j < k" "e = (r + off + Suc j * nrows m, c)"
      by (auto simp: add.assoc)
    then show "e \<in> {(r + off + j * nrows m, c) | r c j. (r, c) \<in> stored m \<and> j < Suc k}"
    proof cases
      case 1
      then show ?thesis by blast
    next
      case 2
      then have "Suc j < Suc k" by simp
      with 2 show ?thesis by blast
    qed
  next
    fix e assume "e \<in> {(r + off + j * nrows m, c) | r c j. (r, c) \<in> stored m \<and> j < Suc k}"
    then obtain r c j where e: "e = (r + off + j * nrows m, c)" "(r, c) \<in> stored m" "j < Suc k"
      by blast
    show "e \<in> (\<lambda>(r, c). (r + off, c)) ` stored m
        \<union> {(r + (off + nrows m) + j * nrows m, c) | r c j. (r, c) \<in> stored m \<and> j < k}"
    proof (cases j)
      case 0
      then show ?thesis using e by force
    next
      case (Suc j')
      then have "e = (r + (off + nrows m) + j' * nrows m, c)" "j' < k"
        using e by (simp_all add: add.assoc)
      then show ?thesis using e(2) by blast
    qed
  qed
  finally show ?case .
qed

lemma vstack_replicate:
  assumes "0 < k"
  shows "\<exists>s. vstack (replicate k m) = Inr s
           \<and> stored s = {(r + j * nrows m, c) | r c j. (r, c) \<in> stored m \<and> j < k}"
proof -
  have "replicate k m \<noteq> []" using assms by auto
  then have "vstack (replicate k m)
      = Inr \<lparr> nrows = sum_list (map nrows (replicate k m)), ncols = ncols (hd (replicate k m)),
               triples = stack_triples (replicate k m) 0 \<rparr>"
    by (auto simp: vstack_def)
  then show ?thesis
    using stack_triples_replicate [of k m 0] by (simp add: stored_def)
qed

section \<open>The matching estimator computes the optimum\<close>

lemma finite_stored: "finite (stored s)"
  by (simp add: stored_def)

lemma is_matching_inj:
  "is_matching M \<Longrightarrow> inj_on fst M \<and> inj_on snd M"
  unfolding is_matching_def inj_on_def by blast

lemma matching_to_bounded:
  assumes P: "\<forall>(r, c) \<in> P. r < n"
    and s: "stored s = {(r + j * n, c) | r c j. (r, c) \<in> P \<and> j < b}"
    and M: "M \<subseteq> stored s" "is_matching M"
  shows "\<exists>N. bounded_matching P b N \<and> card N = card M"
proof -
  define h where "h = (\<lambda>e :: nat \<times> nat. (fst e mod n, snd e))"
  have finM: "finite M" using M(1) finite_stored by (rule finite_subset)
  have inj: "inj_on fst M" "inj_on snd M" using is_matching_inj [OF M(2)] by blast+
  have rep: "\<exists>r c j. e = (r + j * n, c) \<and> (r, c) \<in> P \<and> j < b \<and> r < n" if "e \<in> M" for e
  proof -
    from that M(1) s obtain r c j where "e = (r + j * n, c)" "(r, c) \<in> P" "j < b" by blast
    moreover from this P have "r < n" by blast
    ultimately show ?thesis by blast
  qed
  have hP: "h e \<in> P" if "e \<in> M" for e
  proof -
    from rep [OF that] obtain r c j where "e = (r + j * n, c)" "(r, c) \<in> P" "r < n" by blast
    then show ?thesis by (simp add: h_def)
  qed
  have snd_h: "snd (h e) = snd e" for e by (simp add: h_def)
  have inj_h: "inj_on h M"
  proof (rule inj_onI)
    fix x y assume "x \<in> M" "y \<in> M" "h x = h y"
    then have "snd x = snd y" by (metis snd_h)
    with inj(2) \<open>x \<in> M\<close> \<open>y \<in> M\<close> show "x = y" by (simp add: inj_on_def)
  qed
  have inj_snd: "inj_on snd (h ` M)"
  proof (rule inj_onI)
    fix x y assume "x \<in> h ` M" "y \<in> h ` M" "snd x = snd y"
    then obtain x' y' where xy: "x' \<in> M" "y' \<in> M" "x = h x'" "y = h y'" by blast
    with \<open>snd x = snd y\<close> have "snd x' = snd y'" by (simp add: snd_h)
    with inj(2) xy(1,2) have "x' = y'" by (simp add: inj_on_def)
    then show "x = y" using xy by simp
  qed
  have bound: "card {v. (i, v) \<in> h ` M} \<le> b" for i
  proof -
    let ?Mi = "{e \<in> M. fst e mod n = i}"
    have "{v. (i, v) \<in> h ` M} = snd ` ?Mi"
      by (auto simp: h_def image_iff) 
    then have "card {v. (i, v) \<in> h ` M} \<le> card ?Mi"
      using finM by (simp add: card_image_le)
    also have "card ?Mi = card (fst ` ?Mi)"
      by (rule card_image [symmetric]) (rule inj_on_subset [OF inj(1)], blast)
    also have "fst ` ?Mi \<subseteq> (\<lambda>j. i + j * n) ` {..<b}"
    proof
      fix x assume "x \<in> fst ` ?Mi"
      then obtain e where e: "e \<in> M" "fst e mod n = i" "x = fst e" by blast
      from rep [OF e(1)] obtain r c j where r: "e = (r + j * n, c)" "j < b" "r < n" by blast
      with e(2) have "r = i" by simp
      with r e(3) show "x \<in> (\<lambda>j. i + j * n) ` {..<b}" by auto
    qed
    then have "card (fst ` ?Mi) \<le> card ((\<lambda>j. i + j * n) ` {..<b})"
      by (intro card_mono) simp_all
    also have "\<dots> \<le> card {..<b}" by (rule card_image_le) simp
    finally show ?thesis by simp
  qed
  have "bounded_matching P b (h ` M)"
    unfolding bounded_matching_def using hP inj_snd bound by blast
  moreover have "card (h ` M) = card M" by (rule card_image [OF inj_h])
  ultimately show ?thesis by blast
qed


lemma inj_to_segment:
  assumes "finite A" and "card A \<le> b"
  shows "\<exists>f :: 'a \<Rightarrow> nat. inj_on f A \<and> f ` A \<subseteq> {..<b}"
proof -
  from finite_imp_inj_to_nat_seg [OF assms(1)]
  obtain f :: "'a \<Rightarrow> nat" and k where f: "f ` A = {i. i < k}" "inj_on f A" by blast
  have "card (f ` A) = card A" by (rule card_image [OF f(2)])
  then have "k = card A" using f(1) by simp
  then have "f ` A \<subseteq> {..<b}" using f(1) assms(2) by auto
  with f(2) show ?thesis by blast
qed

lemma bounded_to_matching:
  assumes fin: "finite P" and P: "\<forall>(r, c) \<in> P. r < n"
    and s: "stored s = {(r + j * n, c) | r c j. (r, c) \<in> P \<and> j < b}"
    and N: "bounded_matching P b N"
  shows "\<exists>M. M \<subseteq> stored s \<and> is_matching M \<and> card M = card N"
proof -
  have sub: "N \<subseteq> P" and inj: "inj_on snd N" and bnd: "\<forall>i. card {v. (i, v) \<in> N} \<le> b"
    using N by (simp_all add: bounded_matching_def)
  have finN: "finite N" using sub fin by (rule finite_subset)
  have "\<exists>f :: nat \<Rightarrow> nat. inj_on f {v. (i, v) \<in> N} \<and> f ` {v. (i, v) \<in> N} \<subseteq> {..<b}" for i
  proof (rule inj_to_segment)
    have "{v. (i, v) \<in> N} \<subseteq> snd ` N" by force
    then show "finite {v. (i, v) \<in> N}" using finN by (meson finite_imageI finite_subset)
    show "card {v. (i, v) \<in> N} \<le> b" using bnd by blast
  qed
  then obtain F :: "nat \<Rightarrow> nat \<Rightarrow> nat"
    where F: "\<And>i. inj_on (F i) {v. (i, v) \<in> N}" "\<And>i. F i ` {v. (i, v) \<in> N} \<subseteq> {..<b}"
    by metis
  define k where "k = (\<lambda>e :: nat \<times> nat. (fst e + F (fst e) (snd e) * n, snd e))"
  have Fb: "F i v < b" if "(i, v) \<in> N" for i v
    using F(2) [of i] that by blast
  have ltn: "i < n" if "(i, v) \<in> N" for i v
    using that sub P by blast
  have in_s: "k ` N \<subseteq> stored s"
  proof
    fix x assume "x \<in> k ` N"
    then obtain i v where iv: "(i, v) \<in> N" "x = (i + F i v * n, v)"
      by (auto simp: k_def)
    with sub Fb [OF iv(1)] show "x \<in> stored s" unfolding s by blast
  qed
  have inj_k: "inj_on k N"
  proof (rule inj_onI)
    fix x y assume "x \<in> N" "y \<in> N" "k x = k y"
    then have "snd x = snd y" by (simp add: k_def)
    with inj \<open>x \<in> N\<close> \<open>y \<in> N\<close> show "x = y" by (simp add: inj_on_def)
  qed
  have "is_matching (k ` N)"
    unfolding is_matching_def
  proof (intro ballI impI)
    fix e e' assume e: "e \<in> k ` N" "e' \<in> k ` N" and eq: "fst e = fst e' \<or> snd e = snd e'"
    from e obtain i v i' v' where iv: "(i, v) \<in> N" "e = (i + F i v * n, v)"
      and iv': "(i', v') \<in> N" "e' = (i' + F i' v' * n, v')"
      by (auto simp: k_def)
    from eq show "e = e'"
    proof
      assume "snd e = snd e'"
      then have "v = v'" using iv iv' by simp
      then have "snd (i, v) = snd (i', v')" by simp
      from inj_onD [OF inj this iv(1) iv'(1)] have "(i, v) = (i', v')" .
      then show ?thesis using iv iv' by simp
    next
      assume "fst e = fst e'"
      then have f: "i + F i v * n = i' + F i' v' * n" using iv iv' by simp
      have "i < n" "i' < n" using ltn iv(1) iv'(1) by blast+
      then have "(i + F i v * n) mod n = i" "(i' + F i' v' * n) mod n = i'" by simp_all
      with f have ii: "i = i'" by simp
      with f \<open>i < n\<close> have "F i v = F i v'" by simp
      moreover have "v \<in> {v. (i, v) \<in> N}" "v' \<in> {v. (i, v) \<in> N}"
        using iv(1) iv'(1) ii by simp_all
      ultimately have "v = v'" using F(1) [of i] by (simp add: inj_on_def)
      with ii iv iv' show ?thesis by simp
    qed
  qed
  moreover have "card (k ` N) = card N" by (rule card_image [OF inj_k])
  ultimately show ?thesis using in_s by blast
qed

lemma matched_columns_stack:
  assumes fin: "finite P" and P: "\<forall>(r, c) \<in> P. r < n"
    and s: "stored s = {(r + j * n, c) | r c j. (r, c) \<in> P \<and> j < b}"
  shows "matched_columns s = optimum P b"
proof -
  let ?C = "card ` {M \<in> Pow (stored s). is_matching M}"
  have finC: "finite ?C" using finite_stored [of s] by simp
  have "{} \<in> {M \<in> Pow (stored s). is_matching M}" by (simp add: is_matching_def)
  then have neC: "?C \<noteq> {}" by blast
  have le: "Max ?C \<le> optimum P b"
  proof (rule Max.boundedI [OF finC neC])
    fix a assume "a \<in> ?C"
    then obtain M where M: "M \<subseteq> stored s" "is_matching M" "a = card M" by auto
    from matching_to_bounded [OF P s M(1,2)] obtain N
      where "bounded_matching P b N" "card N = card M" by blast
    with optimum_ge [OF fin] M(3) show "a \<le> optimum P b" by metis
  qed
  have ge: "optimum P b \<le> Max ?C"
  proof -
    from optimum_attained [OF fin, of b] obtain N
      where N: "bounded_matching P b N" "card N = optimum P b" by blast
    from bounded_to_matching [OF fin P s N(1)] obtain M
      where "M \<subseteq> stored s" "is_matching M" "card M = card N" by blast
    then have "M \<in> {M \<in> Pow (stored s). is_matching M}" "card M = optimum P b"
      using N(2) by simp_all
    then have "optimum P b \<in> ?C" by (metis image_eqI)
    then show ?thesis by (rule Max_ge [OF finC])
  qed
  from le ge show ?thesis by (simp add: matched_columns_def)
qed

text \<open>The matching estimator computes the optimum.\<close>

lemma matching_is_optimum:
  assumes "pairs (data d) \<noteq> {}" and "0 < b"
  shows "matching_distinct_count d b = Inr (int (optimum (pairs (data d)) (nat b)))"
proof -
  from to_matrix_nonempty [OF assms(1)] obtain m where m: "to_matrix (data d) = Inr m" by blast
  from to_matrix_Inr [OF m] have st: "stored m = pairs (data d)"
    and lt: "\<forall>(r, c) \<in> pairs (data d). r < nrows m" by blast+
  have "0 < nat b" using assms(2) by simp
  from vstack_replicate [OF this, of m] obtain s where s: "vstack (replicate (nat b) m) = Inr s"
    and ss: "stored s = {(r + j * nrows m, c) | r c j. (r, c) \<in> stored m \<and> j < nat b}" by blast
  have "matched_columns s = optimum (pairs (data d)) (nat b)"
    by (rule matched_columns_stack [OF finite_pairs lt]) (simp only: ss st)
  then show ?thesis
    by (simp add: matching_distinct_count_def as_matrix_def m s)
qed

section \<open>The greedy estimator\<close>

lemma assigned_mono: "assigned xs S c \<Longrightarrow> (\<And>j. c j \<le> c' j) \<Longrightarrow> assigned xs S c'"
  unfolding assigned_def by (meson order_trans)

lemma assigned_optimum:
  assumes "assigned xs S (\<lambda>j. b)"
  shows "card S \<le> optimum (pairs xs) b"
proof -
  from assms obtain g where "finite S" "\<forall>v \<in> S. (g v, v) \<in> pairs xs"
    "\<forall>j. card {v \<in> S. g v = j} \<le> b"
    unfolding assigned_def by blast
  then show ?thesis
    using assignment_bound [where P = "pairs xs" and S = S and g = g and b = b] finite_pairs
    by blast
qed

lemma assigned_insert:
  assumes a: "assigned xs S c" and v: "(i, v) \<in> pairs xs" "v \<notin> S"
  shows "assigned xs (insert v S) (c(i := c i + 1))"
proof -
  from a obtain g where fin: "finite S" and g: "\<forall>w \<in> S. (g w, w) \<in> pairs xs"
    and c: "\<forall>j. card {w \<in> S. g w = j} \<le> c j"
    unfolding assigned_def by blast
  let ?g = "g(v := i)"
  have 1: "\<forall>w \<in> insert v S. (?g w, w) \<in> pairs xs" using g v(1) by simp
  have 2: "card {w \<in> insert v S. ?g w = j} \<le> (c(i := c i + 1)) j" for j
  proof (cases "j = i")
    case True
    have "{w \<in> insert v S. ?g w = i} = insert v {w \<in> S. g w = i}"
      using v(2) by auto
    then have "card {w \<in> insert v S. ?g w = i} \<le> card {w \<in> S. g w = i} + 1"
      using fin by (simp add: card_insert_if)
    with c True show ?thesis by (simp add: le_trans)
  next
    case False
    have "{w \<in> insert v S. ?g w = j} = {w \<in> S. g w = j}"
      using v(2) False by auto
    with c False show ?thesis by simp
  qed
  show ?thesis
    unfolding assigned_def using fin 1 2 by blast
qed

lemma greedy_scan_result:
  "greedy_scan r p res = (p', res') \<Longrightarrow>
     res' = res \<or> (\<exists>v \<in> set r. v \<notin> res \<and> res' = insert v res)"
proof (induction r p res rule: greedy_scan.induct)
  case (1 r p res)
  show ?case
  proof (cases "p < length r")
    case False
    with "1.prems" show ?thesis by (simp add: greedy_scan.simps [of r p res])
  next
    case True
    show ?thesis
    proof (cases "r ! p \<in> res")
      case False
      with True "1.prems" have "res' = insert (r ! p) res"
        by (simp add: greedy_scan.simps [of r p res])
      with True False show ?thesis by auto
    next
      case in_res: True
      with True "1.prems" have "greedy_scan r (p + 1) res = (p', res')"
        by (simp add: greedy_scan.simps [of r p res])
      with "1.IH" True in_res show ?thesis by blast
    qed
  qed
qed

lemma scan_assigned:
  assumes "assigned xs res c" and "i < length xs"
    and "greedy_scan (xs ! i) p res = (p', res')"
  shows "assigned xs res' (c(i := c i + 1))"
proof -
  from greedy_scan_result [OF assms(3)]
  consider "res' = res" | v where "v \<in> set (xs ! i)" "v \<notin> res" "res' = insert v res" by blast
  then show ?thesis
  proof cases
    case 1
    with assms(1) show ?thesis by (auto intro: assigned_mono)
  next
    case 2
    from 2(1) assms(2) have "(i, v) \<in> pairs xs" by (intro pairsI)
    from assigned_insert [OF assms(1) this 2(2)] 2(3) show ?thesis by simp
  qed
qed

lemma pass_assigned:
  assumes "assigned xs res c" and "rs = drop i xs"
    and "greedy_pass rs i (res, pos) = (res', pos')"
  shows "assigned xs res' (\<lambda>j. if i \<le> j \<and> j < length xs then c j + 1 else c j)"
  using assms
proof (induction rs arbitrary: i res pos c)
  case Nil
  then have "res' = res" by simp
  with Nil.prems(1) show ?case by (auto intro: assigned_mono)
next
  case (Cons r rest)
  from Cons.prems(2) have i: "i < length xs"
    by (cases "i < length xs") simp_all
  from Cons_nth_drop_Suc [OF i] Cons.prems(2)
  have "r # rest = xs ! i # drop (Suc i) xs" by (simp only:)
  then have r: "r = xs ! i" and rest: "rest = drop (i + 1) xs"
    by simp_all
  obtain p res1 where sc: "greedy_scan r (pos ! i) res = (p, res1)" by (cases "greedy_scan r (pos ! i) res")
  with Cons.prems(3) have next_step: "greedy_pass rest (i + 1) (res1, pos[i := p]) = (res', pos')"
    by simp
  from sc have a1: "assigned xs res1 (c(i := c i + 1))"
    using scan_assigned [OF Cons.prems(1) i] r by blast
  from Cons.IH [OF a1 rest next_step]
  have "assigned xs res' (\<lambda>j. if i + 1 \<le> j \<and> j < length xs then (c(i := c i + 1)) j + 1 else (c(i := c i + 1)) j)" .
  then show ?case
  proof (rule assigned_mono)
    fix j show "(if i + 1 \<le> j \<and> j < length xs then (c(i := c i + 1)) j + 1 else (c(i := c i + 1)) j)
        \<le> (if i \<le> j \<and> j < length xs then c j + 1 else c j)"
      using i by auto
  qed
qed

lemma rounds_assigned:
  "(greedy_pass xs 0 ^^ t) ({}, pos0) = (res, pos) \<Longrightarrow> assigned xs res (\<lambda>j. t)"
proof (induction t arbitrary: res pos)
  case 0
  then have "res = {}" by simp
  then show ?case by (simp add: assigned_def)
next
  case (Suc t)
  obtain res1 pos1 where st: "(greedy_pass xs 0 ^^ t) ({}, pos0) = (res1, pos1)"
    by (cases "(greedy_pass xs 0 ^^ t) ({}, pos0)")
  with Suc.prems have "greedy_pass xs 0 (res1, pos1) = (res, pos)" by simp
  from pass_assigned [OF Suc.IH [OF st] _ this]
  have "assigned xs res (\<lambda>j. if 0 \<le> j \<and> j < length xs then t + 1 else t)" by simp
  then show ?case by (rule assigned_mono) auto
qed

lemma greedy_le_optimum:
  "greedy_distinct_count d b \<le> int (optimum (pairs (data d)) (nat b))"
proof -
  obtain res pos where st: "greedy_state d b = (res, pos)" by (cases "greedy_state d b")
  then have "assigned (data d) res (\<lambda>j. nat b)"
    unfolding greedy_state_def by (rule rounds_assigned)
  from assigned_optimum [OF this] show ?thesis
    by (simp add: greedy_distinct_count_def st)
qed

lemma values_pairs:
  assumes "DataSet_init xs = Inr d" and "0 < number_of_values d"
  shows "pairs (data d) \<noteq> {}"
proof -
  from assms(1) have d: "data d = xs" "number_of_values d = card (set (concat xs))"
    by (auto simp: DataSet_init_def split: if_splits)
  with assms(2) have "set (concat xs) \<noteq> {}" by (metis card.empty less_numeral_extra(3))
  then obtain v where "v \<in> set (concat xs)" by (cases "concat xs") auto
  then obtain r where "r \<in> set xs" "v \<in> set r" unfolding set_concat by blast
  then obtain i where "i < length xs" "xs ! i = r" by (auto simp: in_set_conv_nth)
  with \<open>v \<in> set r\<close> have "(i, v) \<in> pairs xs" by (intro pairsI) simp_all
  then show ?thesis using d(1) by auto
qed

text \<open>
  Claim C4, as amended. For every data set with at least one value and every positive
  contribution bound, the matching estimator returns a count and the greedy estimate
  does not exceed it.
\<close>

theorem greedy_le_matching:
  assumes "DataSet_init xs = Inr d" and "0 < number_of_values d" and "0 < b"
  shows "\<exists>m. matching_distinct_count d b = Inr m \<and> greedy_distinct_count d b \<le> m"
  using matching_is_optimum [OF values_pairs [OF assms(1,2)] assms(3)] greedy_le_optimum [of d b]
  by simp

lemma example_greedy_1: "greedy_distinct_count example_data 1 = 2"
  by code_simp

lemma example_matching_1: "matching_distinct_count example_data 1 = Inr 2"
  by code_simp

theorem greedy_le_matching_witness:
  "DataSet_init [[0, 1], [2, 1]] = Inr example_data \<and> 0 < number_of_values example_data
   \<and> (0::int) < 1
   \<and> matching_distinct_count example_data 1 = Inr 2
   \<and> greedy_distinct_count example_data 1 = 2"
proof -
  have v: "0 < number_of_values example_data" by (simp add: example_data_def)
  have b: "(0::int) < 1" by simp
  show ?thesis
    using greedy_le_matching [OF example_data_init v b] example_data_init v
      example_greedy_1 example_matching_1
    by simp
qed

section \<open>The sampling estimator\<close>

lemma assigned_union:
  assumes a: "assigned xs S c" and A: "finite A" "\<forall>v \<in> A. (i, v) \<in> pairs xs" "card A \<le> k"
  shows "assigned xs (S \<union> A) (c(i := c i + k))"
proof -
  from a obtain g where fin: "finite S" and g: "\<forall>w \<in> S. (g w, w) \<in> pairs xs"
    and c: "\<forall>j. card {w \<in> S. g w = j} \<le> c j"
    unfolding assigned_def by blast
  define g' where "g' = (\<lambda>v. if v \<in> S then g v else i)"
  have 1: "\<forall>w \<in> S \<union> A. (g' w, w) \<in> pairs xs"
    using g A(2) by (auto simp: g'_def)
  have 2: "card {w \<in> S \<union> A. g' w = j} \<le> (c(i := c i + k)) j" for j
  proof -
    have sub: "{w \<in> S \<union> A. g' w = j} \<subseteq> {w \<in> S. g w = j} \<union> (if j = i then A else {})"
      by (auto simp: g'_def)
    have "finite ({w \<in> S. g w = j} \<union> (if j = i then A else {}))"
      using fin A(1) by simp
    from card_mono [OF this sub]
    have "card {w \<in> S \<union> A. g' w = j} \<le> card ({w \<in> S. g w = j} \<union> (if j = i then A else {}))" .
    also have "\<dots> \<le> card {w \<in> S. g w = j} + card (if j = i then A else {})"
      by (rule card_Un_le)
    also have "\<dots> \<le> c j + (if j = i then k else 0)"
      using c A(3) by (auto intro: add_mono)
    finally show ?thesis by (cases "j = i") simp_all
  qed
  have "finite (S \<union> A)" using fin A(1) by simp
  then show ?thesis
    unfolding assigned_def using 1 2 by blast
qed

lemma sample_chosen:
  assumes "0 < b" and "b \<le> int (length r) \<longrightarrow> valid_draw r b dr"
  shows "\<exists>chosen. sample r b dr = Inr chosen \<and> set chosen \<subseteq> set r
           \<and> card (set chosen) \<le> nat b"
proof (cases "int (length r) < b")
  case True
  have "card (set r) \<le> length r" by (rule card_length)
  with True have "card (set r) \<le> nat b" by linarith
  with True show ?thesis by (simp add: sample_def)
next
  case False
  with assms(2) have v: "int (length dr) = b" "\<forall>i \<in> set dr. i < length r"
    by (simp_all add: valid_draw_def)
  have "card (set (map (\<lambda>i. r ! i) dr)) \<le> length (map (\<lambda>i. r ! i) dr)" by (rule card_length)
  then have c: "card (set (map (\<lambda>i. r ! i) dr)) \<le> nat b" using v(1) by simp
  have "set (map (\<lambda>i. r ! i) dr) \<subseteq> set r" using v(2) by auto
  with c False assms(1) show ?thesis by (simp add: sample_def)
qed

lemma sampling_loop_assigned:
  assumes "assigned xs result c" and "rs = drop i xs" and "ds = drop i draws"
    and "length draws = length xs" and "0 < b"
    and "\<forall>j < length xs. b \<le> int (length (xs ! j)) \<longrightarrow> valid_draw (xs ! j) b (draws ! j)"
  shows "\<exists>result'. sampling_loop rs b ds result = Inr result'
           \<and> assigned xs result' (\<lambda>j. if i \<le> j \<and> j < length xs then c j + nat b else c j)"
  using assms(1,2,3)
proof (induction rs arbitrary: i result c ds)
  case Nil
  then show ?case by (auto intro: assigned_mono)
next
  case (Cons r rest)
  from Cons.prems(2) have i: "i < length xs"
    by (cases "i < length xs") simp_all
  from Cons_nth_drop_Suc [OF i] Cons.prems(2)
  have "r # rest = xs ! i # drop (Suc i) xs" by (simp only:)
  then have r: "r = xs ! i" and rest: "rest = drop (i + 1) xs"
    by simp_all
  have i': "i < length draws" using i assms(4) by simp
  from Cons_nth_drop_Suc [OF i'] Cons.prems(3)
  have ds: "ds = draws ! i # drop (i + 1) draws" by simp
  from assms(6) i r have "b \<le> int (length r) \<longrightarrow> valid_draw r b (draws ! i)" by blast
  from sample_chosen [OF assms(5) this] obtain chosen
    where ch: "sample r b (draws ! i) = Inr chosen" "set chosen \<subseteq> set r"
      "card (set chosen) \<le> nat b" by blast
  have "\<forall>v \<in> set chosen. (i, v) \<in> pairs xs"
    using ch(2) i r by (auto intro: pairsI)
  from assigned_union [OF Cons.prems(1) _ this ch(3)]
  have a1: "assigned xs (result \<union> set chosen) (c(i := c i + nat b))" by simp
  have tl: "tl ds = drop (i + 1) draws" by (simp add: ds)
  from Cons.IH [OF a1 rest tl] obtain result'
    where res: "sampling_loop rest b (tl ds) (result \<union> set chosen) = Inr result'"
      and a2: "assigned xs result'
        (\<lambda>j. if i + 1 \<le> j \<and> j < length xs then (c(i := c i + nat b)) j + nat b
             else (c(i := c i + nat b)) j)"
    by blast
  have "sampling_loop (r # rest) b ds result = Inr result'"
    using ch(1) res by (simp add: ds)
  moreover have "assigned xs result' (\<lambda>j. if i \<le> j \<and> j < length xs then c j + nat b else c j)"
    using a2
  proof (rule assigned_mono)
    fix j
    show "(if i + 1 \<le> j \<and> j < length xs then (c(i := c i + nat b)) j + nat b
           else (c(i := c i + nat b)) j)
        \<le> (if i \<le> j \<and> j < length xs then c j + nat b else c j)"
      using i by auto
  qed
  ultimately show ?case by blast
qed

lemma sampling_le_optimum:
  assumes "0 < b" and "valid_draws d b draws"
  shows "\<exists>s. sampling_distinct_count d b draws = Inr s
           \<and> s \<le> int (optimum (pairs (data d)) (nat b))"
proof -
  have a0: "assigned (data d) {} (\<lambda>j. 0)" by (simp add: assigned_def)
  from assms(2) have len: "length draws = length (data d)"
    and v: "\<forall>j < length (data d). b \<le> int (length (data d ! j))
               \<longrightarrow> valid_draw (data d ! j) b (draws ! j)"
    by (simp_all add: valid_draws_def)
  from sampling_loop_assigned [OF a0 _ _ len assms(1) v, of "data d" 0 draws]
  obtain result' where res: "sampling_loop (data d) b draws {} = Inr result'"
    and a: "assigned (data d) result'
              (\<lambda>j. if 0 \<le> j \<and> j < length (data d) then 0 + nat b else 0)"
    by auto
  from a have "assigned (data d) result' (\<lambda>j. nat b)"
    by (rule assigned_mono) auto
  from assigned_optimum [OF this] res show ?thesis
    by (simp add: sampling_distinct_count_def)
qed

text \<open>
  Claim C5, as amended. For every data set with at least one value, every positive
  contribution bound and every outcome of the random draws, the matching estimator
  returns a count and the sampling estimate does not exceed it.
\<close>

theorem sampling_le_matching:
  assumes "DataSet_init xs = Inr d" and "0 < number_of_values d" and "0 < b"
    and "valid_draws d b draws"
  shows "\<exists>m s. matching_distinct_count d b = Inr m
           \<and> sampling_distinct_count d b draws = Inr s \<and> s \<le> m"
  using matching_is_optimum [OF values_pairs [OF assms(1,2)] assms(3)]
    sampling_le_optimum [OF assms(3,4)]
  by auto

lemma example_sampling_1: "sampling_distinct_count example_data 1 [[1], [1]] = Inr 1"
  by code_simp

theorem sampling_le_matching_witness:
  "DataSet_init [[0, 1], [2, 1]] = Inr example_data \<and> 0 < number_of_values example_data
   \<and> (0::int) < 1 \<and> valid_draws example_data 1 [[1], [1]]
   \<and> matching_distinct_count example_data 1 = Inr 2
   \<and> sampling_distinct_count example_data 1 [[1], [1]] = Inr 1"
proof -
  have v: "0 < number_of_values example_data" by (simp add: example_data_def)
  have b: "(0::int) < 1" by simp
  have dr: "valid_draws example_data 1 [[1], [1]]"
    by (auto simp: valid_draws_def valid_draw_def example_data_def less_Suc_eq)
  show ?thesis
    using sampling_le_matching [OF example_data_init v b dr] example_data_init v dr
      example_sampling_1 example_matching_1
    by simp
qed

section \<open>A data set without values\<close>

lemma empty_user_init: "DataSet_init [[]] = Inr empty_user"
  by (simp add: DataSet_init_def empty_user_def)

lemma empty_user_matching: "matching_distinct_count empty_user b = Inl ValueError"
  by (simp add: matching_distinct_count_def as_matrix_def to_matrix_def csr_matrix_init_def
      empty_user_def enumerate_simps)

text \<open>
  Claim C4 as stated fails on the data set whose only user contributed nothing: with
  the bound 1 the greedy estimator returns 0, and the matching estimator raises the
  \<^verbatim>\<open>ValueError\<close> of the sparse-matrix constructor (no index to infer a shape from), so
  there is no matching count to compare with.
\<close>

theorem greedy_le_matching_counterexample:
  "DataSet_init [[]] = Inr empty_user
   \<and> greedy_distinct_count empty_user 1 = 0
   \<and> matching_distinct_count empty_user 1 = Inl ValueError"
proof -
  have "greedy_distinct_count empty_user 1 = 0"
    by (simp add: greedy_distinct_count_def greedy_state_def empty_user_def
        greedy_scan.simps [of "[]"])
  with empty_user_init empty_user_matching show ?thesis by simp
qed

text \<open>
  Claim C5 as stated fails on the same data set: with the bound 1 the sampling
  estimator returns 0 (the user's empty list is returned as it is), and the matching
  estimator raises \<^verbatim>\<open>ValueError\<close>.
\<close>

theorem sampling_le_matching_counterexample:
  "DataSet_init [[]] = Inr empty_user
   \<and> valid_draws empty_user 1 [[]]
   \<and> sampling_distinct_count empty_user 1 [[]] = Inr 0
   \<and> matching_distinct_count empty_user 1 = Inl ValueError"
proof -
  have v: "valid_draws empty_user 1 [[]]"
    by (simp add: valid_draws_def empty_user_def)
  have "sampling_distinct_count empty_user 1 [[]] = Inr 0"
    by (simp add: sampling_distinct_count_def sample_def empty_user_def)
  with empty_user_init empty_user_matching v show ?thesis by simp
qed

section \<open>The list of all flows\<close>

lemma product_lists_Cons:
  "F \<in> set (product_lists (ys # yss)) \<longleftrightarrow>
     (\<exists>x F'. F = x # F' \<and> x \<in> set ys \<and> F' \<in> set (product_lists yss))"
  by auto

lemma in_flow_lists:
  "F \<in> set (product_lists (map (\<lambda>e. map (Pair e) [0..c e]) es)) \<longleftrightarrow>
     map fst F = es \<and> (\<forall>(e, x) \<in> set F. 0 \<le> x \<and> x \<le> c e)"
proof (induction es arbitrary: F)
  case Nil
  then show ?case by auto
next
  case (Cons e es)
  show ?case
  proof
    assume "F \<in> set (product_lists (map (\<lambda>e. map (Pair e) [0..c e]) (e # es)))"
    then obtain x F' where F: "F = x # F'" "x \<in> set (map (Pair e) [0..c e])"
      "F' \<in> set (product_lists (map (\<lambda>e. map (Pair e) [0..c e]) es))"
      unfolding list.map product_lists_Cons by blast
    from F(2) obtain y where y: "x = (e, y)" "0 \<le> y" "y \<le> c e" by auto
    from F(3) Cons.IH have "map fst F' = es" "\<forall>(e, x) \<in> set F'. 0 \<le> x \<and> x \<le> c e" by blast+
    with F(1) y show "map fst F = e # es \<and> (\<forall>(e, x) \<in> set F. 0 \<le> x \<and> x \<le> c e)"
      by auto
  next
    assume a: "map fst F = e # es \<and> (\<forall>(e, x) \<in> set F. 0 \<le> x \<and> x \<le> c e)"
    then obtain x F' where F: "F = x # F'" "fst x = e" "map fst F' = es" by auto
    obtain y where y: "x = (e, y)" using F(2) by (cases x) auto
    from a F(1) y have b: "0 \<le> y" "y \<le> c e" "\<forall>(e, x) \<in> set F'. 0 \<le> x \<and> x \<le> c e"
      by auto
    from F(3) b(3) Cons.IH have "F' \<in> set (product_lists (map (\<lambda>e. map (Pair e) [0..c e]) es))"
      by blast
    moreover have "x \<in> set (map (Pair e) [0..c e])" using y b(1,2) by simp
    ultimately show "F \<in> set (product_lists (map (\<lambda>e. map (Pair e) [0..c e]) (e # es)))"
      unfolding list.map product_lists_Cons using F(1) by blast
  qed
qed

lemma set_indices: "set (indices G) = stored G"
  by (simp add: indices_def stored_def)

lemma distinct_indices: "distinct (indices G)"
  by (simp add: indices_def)

lemma in_flows:
  "F \<in> set (flows G) \<longleftrightarrow>
     map fst F = indices G \<and> (\<forall>(e, x) \<in> set F. 0 \<le> x \<and> x \<le> max 0 (entry G e))"
  unfolding flows_def by (rule in_flow_lists)

lemma flows_bounds:
  assumes "F \<in> set (flows G)"
  shows "e \<in> stored G \<Longrightarrow> 0 \<le> flow_on F e \<and> flow_on F e \<le> max 0 (entry G e)"
    and "e \<notin> stored G \<Longrightarrow> flow_on F e = 0"
proof -
  from assms have m: "map fst F = indices G"
    and b: "\<forall>(e, x) \<in> set F. 0 \<le> x \<and> x \<le> max 0 (entry G e)"
    unfolding in_flows by blast+
  have d: "distinct (map fst F)" using m distinct_indices by simp
  show "0 \<le> flow_on F e \<and> flow_on F e \<le> max 0 (entry G e)" if "e \<in> stored G"
  proof -
    from that have "e \<in> set (map fst F)" using m set_indices by simp
    then obtain x where x: "(e, x) \<in> set F" by auto
    with d have "map_of F e = Some x" by simp
    then have "flow_on F e = x" by (simp add: flow_on_def)
    with b x show ?thesis by blast
  qed
  show "flow_on F e = 0" if "e \<notin> stored G"
  proof -
    have "fst ` set F = stored G" using m set_indices by (metis set_map)
    with that have "map_of F e = None" by (simp add: map_of_eq_None_iff)
    then show ?thesis by (simp add: flow_on_def)
  qed
qed

lemma flow_on_nonneg: "F \<in> set (flows G) \<Longrightarrow> 0 \<le> flow_on F e"
  using flows_bounds [of F G e] by (cases "e \<in> stored G") simp_all

lemma flows_exist:
  assumes "\<forall>e \<in> stored G. 0 \<le> phi e \<and> phi e \<le> max 0 (entry G e)"
  shows "\<exists>F \<in> set (flows G). \<forall>e. flow_on F e = (if e \<in> stored G then phi e else 0)"
proof -
  define F where "F = map (\<lambda>e. (e, phi e)) (indices G)"
  have m: "map fst F = indices G" by (simp add: F_def comp_def)
  have "\<forall>(e, x) \<in> set F. 0 \<le> x \<and> x \<le> max 0 (entry G e)"
    using assms set_indices by (auto simp: F_def)
  with m have inF: "F \<in> set (flows G)" unfolding in_flows by blast
  have d: "distinct (map fst F)" using m distinct_indices by simp
  have "flow_on F e = (if e \<in> stored G then phi e else 0)" for e
  proof (cases "e \<in> stored G")
    case True
    then have "(e, phi e) \<in> set F" using set_indices by (auto simp: F_def)
    with d have "map_of F e = Some (phi e)" by simp
    with True show ?thesis by (simp add: flow_on_def)
  next
    case False
    with flows_bounds(2) [OF inF] show ?thesis by simp
  qed
  with inF show ?thesis by blast
qed

section \<open>Sums over the nodes of a network\<close>

lemma sum_segment:
  fixes psi :: "nat \<Rightarrow> int"
  assumes "k + m \<le> n" and "\<And>w. w < n \<Longrightarrow> psi w \<noteq> 0 \<Longrightarrow> \<exists>i < m. w = i + k"
  shows "(\<Sum>w < n. psi w) = (\<Sum>i < m. psi (i + k))"
proof -
  let ?S = "(\<lambda>i. i + k) ` {..<m}"
  have sub: "?S \<subseteq> {..<n}" using assms(1) by auto
  have zero: "\<forall>w \<in> {..<n} - ?S. psi w = 0"
  proof
    fix w assume w: "w \<in> {..<n} - ?S"
    show "psi w = 0"
    proof (rule ccontr)
      assume "psi w \<noteq> 0"
      with assms(2) [of w] w obtain i where "i < m" "w = i + k" by auto
      with w show False by blast
    qed
  qed
  have "(\<Sum>w < n. psi w) = (\<Sum>w \<in> ?S. psi w)"
    by (rule sum.mono_neutral_right [OF _ sub zero]) simp
  also have "\<dots> = (\<Sum>i < m. psi (i + k))"
    by (subst sum.reindex) (auto simp: inj_on_def)
  finally show ?thesis .
qed

lemma sum_single:
  fixes psi :: "nat \<Rightarrow> int"
  assumes "k < n" and "\<And>w. w < n \<Longrightarrow> psi w \<noteq> 0 \<Longrightarrow> w = k"
  shows "(\<Sum>w < n. psi w) = psi k"
proof -
  have "(\<Sum>w < n. psi w) = (\<Sum>i < 1. psi (i + k))"
    using assms by (intro sum_segment) auto
  then show ?thesis by simp
qed

section \<open>Weights of triples\<close>

lemma weight_at_append: "weight_at (ts @ us) e = weight_at ts e + weight_at us e"
  by (simp add: weight_at_def)

lemma weight_at_absent:
  "e \<notin> (\<lambda>(r, c, w). (r, c)) ` set ts \<Longrightarrow> weight_at ts e = 0"
proof (induction ts)
  case Nil
  then show ?case by (simp add: weight_at_def)
next
  case (Cons t ts)
  obtain r c w where t: "t = (r, c, w)" by (cases t)
  from Cons.prems have "(r, c) \<noteq> e" "e \<notin> (\<lambda>(r, c, w). (r, c)) ` set ts"
    by (auto simp: t)
  with Cons.IH show ?case by (simp add: weight_at_def t)
qed

lemma weight_at_ones:
  assumes "\<forall>(r, c, w) \<in> set ts. w = 1" and "e \<in> (\<lambda>(r, c, w). (r, c)) ` set ts"
  shows "1 \<le> weight_at ts e"
  using assms
proof (induction ts)
  case Nil
  then show ?case by simp
next
  case (Cons t ts)
  obtain r c w where t: "t = (r, c, w)" by (cases t)
  from Cons.prems(1) have w: "w = 1" and rest: "\<forall>(r, c, w) \<in> set ts. w = 1"
    by (auto simp: t)
  have nonneg: "0 \<le> weight_at ts e"
  proof (cases "e \<in> (\<lambda>(r, c, w). (r, c)) ` set ts")
    case True
    with Cons.IH [OF rest] show ?thesis by simp
  next
    case False
    then show ?thesis by (simp add: weight_at_absent)
  qed
  show ?case
  proof (cases "(r, c) = e")
    case True
    have "weight_at (t # ts) e = 1 + weight_at ts e"
      using True w by (simp add: weight_at_def t)
    with nonneg show ?thesis by simp
  next
    case False
    with Cons.prems(2) have "e \<in> (\<lambda>(r, c, w). (r, c)) ` set ts" by (auto simp: t)
    from Cons.IH [OF rest this] False show ?thesis by (simp add: weight_at_def t)
  qed
qed

lemma weight_at_range:
  assumes "inj f"
  shows "weight_at (map (\<lambda>i. (fst (f i), snd (f i), w)) [lo..<hi]) e
           = (if e \<in> f ` {lo..<hi} then w else 0)"
proof (induction hi)
  case 0
  then show ?case by (simp add: weight_at_def)
next
  case (Suc hi)
  show ?case
  proof (cases "lo \<le> hi")
    case False
    then show ?thesis by (simp add: weight_at_def)
  next
    case True
    then have up: "[lo..<Suc hi] = [lo..<hi] @ [hi]" by simp
    have last: "weight_at [(fst (f hi), snd (f hi), w)] e = (if e = f hi then w else 0)"
      by (auto simp: weight_at_def)
    have notin: "f hi \<notin> f ` {lo..<hi}"
    proof
      assume "f hi \<in> f ` {lo..<hi}"
      then obtain x where "x \<in> {lo..<hi}" "f hi = f x" by blast
      with injD [OF assms, of hi x] show False by simp
    qed
    have split: "f ` {lo..<Suc hi} = insert (f hi) (f ` {lo..<hi})"
      using True by (auto simp: atLeastLessThanSuc)
    show ?thesis
      unfolding up map_append weight_at_append Suc.IH split
      using notin last by auto
  qed
qed

section \<open>The flow matrix of a data set\<close>

lemma weight_at_row0:
  "weight_at (map (\<lambda>i. (0, i, w)) [lo..<hi]) (0, j) = (if lo \<le> j \<and> j < hi then w else 0)"
proof -
  have "inj (\<lambda>i::nat. (0::nat, i))" by (simp add: inj_def)
  from weight_at_range [OF this, of w lo hi "(0, j)"]
  have "weight_at (map (\<lambda>i. (0, i, w)) [lo..<hi]) (0, j)
      = (if (0, j) \<in> (\<lambda>i. (0::nat, i)) ` {lo..<hi} then w else 0)"
    by (simp only: fst_conv snd_conv)
  moreover have "(0, j) \<in> (\<lambda>i. (0::nat, i)) ` {lo..<hi} \<longleftrightarrow> lo \<le> j \<and> j < hi" by auto
  ultimately show ?thesis by simp
qed

lemma weight_at_col1:
  "weight_at (map (\<lambda>i. (i, 1, w)) [lo..<hi]) (j, 1) = (if lo \<le> j \<and> j < hi then w else 0)"
proof -
  have "inj (\<lambda>i::nat. (i, 1::nat))" by (simp add: inj_def)
  from weight_at_range [OF this, of w lo hi "(j, 1)"]
  have "weight_at (map (\<lambda>i. (i, 1, w)) [lo..<hi]) (j, 1)
      = (if (j, 1) \<in> (\<lambda>i. (i, 1::nat)) ` {lo..<hi} then w else 0)"
    by (simp only: fst_conv snd_conv)
  moreover have "(j, 1) \<in> (\<lambda>i. (i, 1::nat)) ` {lo..<hi} \<longleftrightarrow> lo \<le> j \<and> j < hi" by auto
  ultimately show ?thesis by simp
qed

lemma positions_row0:
  "(\<lambda>(r, c, w). (r, c)) ` set (map (\<lambda>i. (0, i, b)) [lo..<hi]) = (\<lambda>i. (0, i)) ` {lo..<hi}"
  by (simp only: set_map set_upt image_image prod.case)

lemma positions_col1:
  "(\<lambda>(r, c, w). (r, c)) ` set (map (\<lambda>i. (i, 1, b)) [lo..<hi]) = (\<lambda>i. (i, 1)) ` {lo..<hi}"
  by (simp only: set_map set_upt image_image prod.case)

lemma positions_pairs:
  "(\<lambda>(r, c, w). (r, c)) `
     set (concat (map (\<lambda>(index, row). map (\<lambda>item. (index + 2, item + k, 1::int)) row)
                    (enumerate 0 xs)))
   = (\<lambda>(i, v). (i + 2, v + k)) ` pairs xs"
proof -
  have "set (concat (map (\<lambda>(index, row). map (\<lambda>item. (index + 2, item + k, 1::int)) row)
                  (enumerate 0 xs)))
         = (\<lambda>(i, v). (i + 2, v + k, 1)) ` pairs xs"
    by (rule enumerate_entries [of "\<lambda>i. i + 2" "\<lambda>v. v + k" 1 xs])
  moreover have "(\<lambda>(r, c, w). (r, c)) ` ((\<lambda>(i, v). (i + 2, v + k, 1::int)) ` pairs xs)
      = (\<lambda>(i, v). (i + 2, v + k)) ` pairs xs"
    by (simp add: image_image case_prod_unfold)
  ultimately show ?thesis by (simp only:)
qed

lemma ones_pairs:
  "\<forall>(r, c, w) \<in> set (concat (map (\<lambda>(index, row). map (\<lambda>item. (index + 2, item + k, 1::int)) row)
                    (enumerate 0 (xs :: nat list list)))). w = 1"
proof -
  have "set (concat (map (\<lambda>(index, row). map (\<lambda>item. (index + 2, item + k, 1::int)) row)
                  (enumerate 0 xs)))
         = (\<lambda>(i, v). (i + 2, v + k, 1)) ` pairs xs"
    by (rule enumerate_entries [of "\<lambda>i. i + 2" "\<lambda>v. v + k" 1 xs])
  then show ?thesis by auto
qed

lemma flow_triples_split:
  "flow_triples nv xs b
     = map (\<lambda>i. (0, i, b)) [2..<length xs + 2]
       @ map (\<lambda>i. (i, 1, 1)) [length xs + 2..<nv + length xs + 2]
       @ concat (map (\<lambda>(index, row). map (\<lambda>item. (index + 2, item + (length xs + 2), 1)) row)
                  (enumerate 0 xs))"
  by (simp only: flow_triples_def Let_def add.assoc)

lemma flow_triples_positions:
  "(\<lambda>(r, c, w). (r, c)) ` set (flow_triples nv xs b)
     = (\<lambda>i. (0, i)) ` {2..<length xs + 2} \<union> (\<lambda>i. (i, 1)) ` {length xs + 2..<nv + length xs + 2}
       \<union> (\<lambda>(i, v). (i + 2, v + (length xs + 2))) ` pairs xs"
  by (simp only: flow_triples_split set_append image_Un positions_row0 positions_col1
      positions_pairs Un_assoc)

lemma flow_triples_weight_source:
  "weight_at (flow_triples nv xs b) (0, j) = (if 2 \<le> j \<and> j < length xs + 2 then b else 0)"
proof -
  have "(0, j) \<notin> (\<lambda>i. (i, 1)) ` {length xs + 2..<nv + length xs + 2}" by auto
  then have B: "weight_at (map (\<lambda>i. (i, 1, 1)) [length xs + 2..<nv + length xs + 2]) (0, j) = 0"
    by (intro weight_at_absent) (simp only: positions_col1, simp)
  have "(0, j) \<notin> (\<lambda>(i, v). (i + 2, v + (length xs + 2))) ` pairs xs" by auto
  then have C: "weight_at (concat (map (\<lambda>(index, row).
                    map (\<lambda>item. (index + 2, item + (length xs + 2), 1)) row) (enumerate 0 xs))) (0, j) = 0"
    by (intro weight_at_absent) (simp only: positions_pairs, simp)
  show ?thesis
    by (simp only: flow_triples_split weight_at_append weight_at_row0 B C add_0_right)
qed

lemma flow_triples_weight_sink:
  "weight_at (flow_triples nv xs b) (j, 1)
     = (if length xs + 2 \<le> j \<and> j < nv + length xs + 2 then 1 else 0)"
proof -
  have "(j, 1) \<notin> (\<lambda>i. (0, i)) ` {2..<length xs + 2}" by auto
  then have A: "weight_at (map (\<lambda>i. (0, i, b)) [2..<length xs + 2]) (j, 1) = 0"
    by (intro weight_at_absent) (simp only: positions_row0, simp)
  have "(j, 1) \<notin> (\<lambda>(i, v). (i + 2, v + (length xs + 2))) ` pairs xs" by auto
  then have C: "weight_at (concat (map (\<lambda>(index, row).
                    map (\<lambda>item. (index + 2, item + (length xs + 2), 1)) row) (enumerate 0 xs))) (j, 1) = 0"
    by (intro weight_at_absent) (simp only: positions_pairs, simp)
  show ?thesis
    by (simp only: flow_triples_split weight_at_append weight_at_col1 A C add_0_right add_0_left)
qed

lemma flow_triples_weight_pair:
  assumes "(i, v) \<in> pairs xs"
  shows "1 \<le> weight_at (flow_triples nv xs b) (i + 2, v + (length xs + 2))"
proof -
  let ?e = "(i + 2, v + (length xs + 2))"
  have "?e \<notin> (\<lambda>i. (0, i)) ` {2..<length xs + 2}" by auto
  then have A: "weight_at (map (\<lambda>i. (0, i, b)) [2..<length xs + 2]) ?e = 0"
    by (intro weight_at_absent) (simp only: positions_row0, simp)
  have "?e \<notin> (\<lambda>i. (i, 1)) ` {length xs + 2..<nv + length xs + 2}" by auto
  then have B: "weight_at (map (\<lambda>i. (i, 1, 1)) [length xs + 2..<nv + length xs + 2]) ?e = 0"
    by (intro weight_at_absent) (simp only: positions_col1, simp)
  have "?e \<in> (\<lambda>(i, v). (i + 2, v + (length xs + 2))) ` pairs xs"
    using assms by force
  then have "?e \<in> (\<lambda>(r, c, w). (r, c)) ` set (concat (map (\<lambda>(index, row).
                    map (\<lambda>item. (index + 2, item + (length xs + 2), 1::int)) row) (enumerate 0 xs)))"
    by (simp only: positions_pairs)
  from weight_at_ones [OF ones_pairs this]
  have C: "1 \<le> weight_at (concat (map (\<lambda>(index, row).
                    map (\<lambda>item. (index + 2, item + (length xs + 2), 1)) row) (enumerate 0 xs))) ?e" .
  show ?thesis
    using C by (simp only: flow_triples_split weight_at_append A B add_0_left)
qed

lemma to_flow_matrix_Inr:
  assumes "xs \<noteq> []"
  shows "\<exists>G. to_flow_matrix nv xs b = Inr G \<and> triples G = flow_triples nv xs b
           \<and> nrows G = Max (set (map fst (flow_triples nv xs b))) + 1
           \<and> ncols G = Max (set (map (fst \<circ> snd) (flow_triples nv xs b))) + 1"
proof -
  have "2 < length xs + 2" using assms by simp
  then have "[2..<length xs + 2] \<noteq> []" by (simp del: upt_Suc)
  then have "flow_triples nv xs b \<noteq> []"
    by (simp only: flow_triples_split append_is_Nil_conv map_is_Nil_conv) simp
  from csr_matrix_init_nonempty [OF this] obtain G
    where G: "csr_matrix_init (flow_triples nv xs b) = Inr G" by blast
  from csr_matrix_init_Inr [OF G] G show ?thesis
    by (simp add: to_flow_matrix_def)
qed

lemma flow_stored:
  assumes "triples G = flow_triples nv xs b"
  shows "stored G = (\<lambda>i. (0, i)) ` {2..<length xs + 2}
                    \<union> (\<lambda>i. (i, 1)) ` {length xs + 2..<nv + length xs + 2}
                    \<union> (\<lambda>(i, v). (i + 2, v + (length xs + 2))) ` pairs xs"
  using flow_triples_positions [of nv xs b] by (simp add: stored_def assms)

lemma flow_no_outflow_nonpositive:
  assumes G: "triples G = flow_triples nv xs b" and b: "b \<le> 0" and F: "F \<in> set (flows G)"
  shows "flow_on F (0, w) = 0"
proof (cases "(0, w) \<in> stored G")
  case True
  have "entry G (0, w) \<le> 0"
    using b by (simp add: entry_def G flow_triples_weight_source)
  with flows_bounds(1) [OF F True] show ?thesis by simp
next
  case False
  with flows_bounds(2) [OF F] show ?thesis by simp
qed

lemma flow_no_inflow_source:
  assumes G: "triples G = flow_triples nv xs b" and F: "F \<in> set (flows G)"
  shows "flow_on F (u, 0) = 0"
proof -
  have "(u, 0) \<notin> stored G" unfolding flow_stored [OF G] by auto
  with flows_bounds(2) [OF F] show ?thesis by simp
qed

lemma zero_flow:
  "\<exists>F \<in> set (flows G). (\<forall>e. flow_on F e = 0) \<and> conserved G s t F"
proof -
  have "\<forall>e \<in> stored G. 0 \<le> (0::int) \<and> (0::int) \<le> max 0 (entry G e)" by simp
  from flows_exist [OF this] obtain F where F: "F \<in> set (flows G)" "\<forall>e. flow_on F e = 0"
    by auto
  then have "conserved G s t F" by (simp add: conserved_def inflow_def outflow_def)
  with F show ?thesis by blast
qed

lemma maximum_flow_nonpositive:
  assumes G: "triples G = flow_triples nv xs b" and b: "b \<le> 0"
  shows "maximum_flow G 0 1 = (if nrows G = ncols G \<and> 1 < nrows G then Inr 0 else Inl ValueError)"
proof (cases "nrows G = ncols G \<and> 1 < nrows G")
  case False
  then show ?thesis by (auto simp: maximum_flow_def)
next
  case True
  let ?S = "flow_value G 0 ` {f \<in> set (flows G). conserved G 0 1 f}"
  have val: "flow_value G 0 F = 0" if "F \<in> set (flows G)" for F
    using flow_no_outflow_nonpositive [OF G b that] flow_no_inflow_source [OF G that]
    by (simp add: flow_value_def inflow_def outflow_def)
  from zero_flow [of G 0 1] obtain F0 where "F0 \<in> set (flows G)" "conserved G 0 1 F0" by blast
  with val have "?S = {0}" by auto
  then have "Max ?S = 0" by simp
  with True show ?thesis by (simp add: maximum_flow_def)
qed

lemma flow_nonpositive:
  assumes "DataSet_init xs = Inr d" and "b \<le> 0"
  shows "flow_distinct_count d b = Inr 0 \<or> flow_distinct_count d b = Inl ValueError"
proof -
  from DataSet_init_data [OF assms(1)] have "data d \<noteq> []" by simp
  from to_flow_matrix_Inr [OF this, of "number_of_values d" b] obtain G
    where G: "to_flow_matrix (number_of_values d) (data d) b = Inr G"
      "triples G = flow_triples (number_of_values d) (data d) b" by blast
  from maximum_flow_nonpositive [OF G(2) assms(2)] G(1) show ?thesis
    by (simp add: flow_distinct_count_def as_flow_matrix_def)
qed

lemma rows_of_positions:
  "set (map fst ts) = fst ` ((\<lambda>(r, c, w). (r, c)) ` set ts)"
  by (simp add: image_image case_prod_unfold)

lemma cols_of_positions:
  "set (map (fst \<circ> snd) ts) = snd ` ((\<lambda>(r, c, w). (r, c)) ` set ts)"
  by (simp add: image_image case_prod_unfold)

lemma pairs_bounded:
  assumes "set (concat xs) = {0..<nv}" and "(i, v) \<in> pairs xs"
  shows "i < length xs" and "v < nv"
proof -
  from pairsD [OF assms(2)] have i: "i < length xs" and v: "v \<in> set (xs ! i)" by blast+
  show "i < length xs" by (rule i)
  have "xs ! i \<in> set xs" using i by simp
  with v have "v \<in> set (concat xs)" unfolding set_concat by blast
  then show "v < nv" unfolding assms(1) by simp
qed

lemma pairs_value:
  assumes "set (concat xs) = {0..<nv}" and "v < nv"
  shows "\<exists>i. (i, v) \<in> pairs xs"
proof -
  from assms have "v \<in> set (concat xs)" by simp
  then obtain r where "r \<in> set xs" "v \<in> set r" unfolding set_concat by blast
  then obtain i where "i < length xs" "xs ! i = r" by (auto simp: in_set_conv_nth)
  with \<open>v \<in> set r\<close> have "(i, v) \<in> pairs xs" by (intro pairsI) simp_all
  then show ?thesis ..
qed

lemma flow_shape:
  assumes c: "set (concat xs) = {0..<nv}" and nv: "0 < nv"
  shows "Max (set (map fst (flow_triples nv xs b))) = nv + length xs + 1"
    and "Max (set (map (fst \<circ> snd) (flow_triples nv xs b))) = nv + length xs + 1"
proof -
  let ?nu = "length xs"
  let ?Pos = "(\<lambda>i. (0, i)) ` {2..<?nu + 2} \<union> (\<lambda>i. (i, 1)) ` {?nu + 2..<nv + ?nu + 2}
       \<union> (\<lambda>(i, v). (i + 2, v + (?nu + 2))) ` pairs xs"
  have pos: "(\<lambda>(r, c, w). (r, c)) ` set (flow_triples nv xs b) = ?Pos"
    by (rule flow_triples_positions)
  have fin: "finite ?Pos" using finite_pairs by simp
  show "Max (set (map fst (flow_triples nv xs b))) = nv + ?nu + 1"
    unfolding rows_of_positions pos
  proof (rule Max_eqI)
    show "finite (fst ` ?Pos)" using fin by (rule finite_imageI)
    show "nv + ?nu + 1 \<in> fst ` ?Pos"
    proof -
      have "nv + ?nu + 1 \<in> {?nu + 2..<nv + ?nu + 2}" using nv by simp
      then have "(nv + ?nu + 1, 1) \<in> ?Pos" by blast
      then show ?thesis by force
    qed
    fix y assume "y \<in> fst ` ?Pos"
    then consider "y = 0" | "y \<in> {?nu + 2..<nv + ?nu + 2}"
      | i v where "(i, v) \<in> pairs xs" "y = i + 2"
      by auto
    then show "y \<le> nv + ?nu + 1"
    proof cases
      case 3
      with pairs_bounded(1) [OF c 3(1)] show ?thesis by simp
    qed simp_all
  qed
  show "Max (set (map (fst \<circ> snd) (flow_triples nv xs b))) = nv + ?nu + 1"
    unfolding cols_of_positions pos
  proof (rule Max_eqI)
    show "finite (snd ` ?Pos)" using fin by (rule finite_imageI)
    show "nv + ?nu + 1 \<in> snd ` ?Pos"
    proof -
      from pairs_value [OF c, of "nv - 1"] nv obtain i where "(i, nv - 1) \<in> pairs xs" by auto
      then have "(i + 2, nv - 1 + (?nu + 2)) \<in> ?Pos" by force
      moreover have "nv - 1 + (?nu + 2) = nv + ?nu + 1" using nv by simp
      ultimately show ?thesis by force
    qed
    fix y assume "y \<in> snd ` ?Pos"
    then consider "y \<in> {2..<?nu + 2}" | "y = 1"
      | i v where "(i, v) \<in> pairs xs" "y = v + (?nu + 2)"
      by auto
    then show "y \<le> nv + ?nu + 1"
    proof cases
      case 1
      then show ?thesis using nv by simp
    next
      case 2
      then show ?thesis by simp
    next
      case 3
      with pairs_bounded(2) [OF c 3(1)] show ?thesis by simp
    qed
  qed
qed

lemma shift_lessThan: "(\<lambda>i. i + k) ` {..<n} = {k..<n + (k::nat)}"
  using image_add_atLeastLessThan' [of k 0 n] by (simp add: lessThan_atLeast0)

lemma flow_network_of_data:
  assumes "xs \<noteq> []" and c: "set (concat xs) = {0..<nv}" and nv: "0 < nv"
  shows "\<exists>G. to_flow_matrix nv xs b = Inr G \<and> is_flow_network (length xs) nv (pairs xs) b G"
proof -
  let ?nu = "length xs"
  from to_flow_matrix_Inr [OF assms(1), of nv b] obtain G
    where G: "to_flow_matrix nv xs b = Inr G" and T: "triples G = flow_triples nv xs b"
      and r: "nrows G = Max (set (map fst (flow_triples nv xs b))) + 1"
      and cc: "ncols G = Max (set (map (fst \<circ> snd) (flow_triples nv xs b))) + 1"
    by blast
  have shape: "nrows G = ?nu + nv + 2" "ncols G = ?nu + nv + 2"
    using r cc flow_shape [OF c nv, of b] by simp_all
  have i1: "(\<lambda>i. (0::nat, i)) ` {2..<?nu + 2} = (\<lambda>i. (0, i + 2)) ` {..<?nu}"
  proof -
    have "{2..<?nu + 2} = (\<lambda>i. i + 2) ` {..<?nu}"
      by (simp only: shift_lessThan)
    then show ?thesis by (simp only: image_image)
  qed
  have i2: "(\<lambda>i. (i, 1::nat)) ` {?nu + 2..<nv + ?nu + 2} = (\<lambda>v. (v + ?nu + 2, 1)) ` {..<nv}"
  proof -
    have "{?nu + 2..<nv + (?nu + 2)} = (\<lambda>v. v + (?nu + 2)) ` {..<nv}"
      by (simp only: shift_lessThan)
    then have "{?nu + 2..<nv + ?nu + 2} = (\<lambda>v. v + ?nu + 2) ` {..<nv}"
      by (simp only: add.assoc)
    then show ?thesis by (simp only: image_image)
  qed
  have i3: "(\<lambda>(i, v). (i + 2, v + (?nu + 2))) ` pairs xs = (\<lambda>(i, v). (i + 2, v + ?nu + 2)) ` pairs xs"
    by (simp add: add.assoc)
  have st: "stored G = (\<lambda>i. (0, i + 2)) ` {..<?nu} \<union> (\<lambda>v. (v + ?nu + 2, 1)) ` {..<nv}
                    \<union> (\<lambda>(i, v). (i + 2, v + ?nu + 2)) ` pairs xs"
    unfolding flow_stored [OF T] i1 i2 i3 ..
  have e1: "\<forall>i < ?nu. entry G (0, i + 2) = b"
    by (simp add: entry_def T flow_triples_weight_source)
  have e2: "\<forall>v < nv. entry G (v + ?nu + 2, 1) = 1"
  proof (intro allI impI)
    fix v assume "v < nv"
    then have cond: "?nu + 2 \<le> v + ?nu + 2 \<and> v + ?nu + 2 < nv + ?nu + 2" by simp
    show "entry G (v + ?nu + 2, 1) = 1"
      unfolding entry_def T flow_triples_weight_sink using cond by (simp only: if_True simp_thms)
  qed
  have e3: "\<forall>(i, v) \<in> pairs xs. 1 \<le> entry G (i + 2, v + ?nu + 2)"
  proof (clarify)
    fix i v assume "(i, v) \<in> pairs xs"
    from flow_triples_weight_pair [OF this, of nv b]
    show "1 \<le> entry G (i + 2, v + ?nu + 2)" by (simp add: entry_def T add.assoc)
  qed
  have sub: "pairs xs \<subseteq> {..<?nu} \<times> {..<nv}"
    using pairs_bounded [OF c] by auto
  from shape st e1 e2 e3 sub have "is_flow_network ?nu nv (pairs xs) b G"
    unfolding is_flow_network_def by blast
  with G show ?thesis by blast
qed

section \<open>Contribution bounds that are not positive, all four estimators\<close>

lemma flow_nonpositive_square:
  assumes "DataSet_init xs = Inr d" and "b \<le> 0"
    and "contiguous_values d" and "0 < number_of_values d"
  shows "flow_distinct_count d b = Inr 0"
proof -
  from DataSet_init_data [OF assms(1)] have ne: "data d \<noteq> []" by simp
  from assms(3) have c: "set (concat (data d)) = {0..<number_of_values d}"
    by (simp add: contiguous_values_def)
  from flow_network_of_data [OF ne c assms(4), of b] obtain G
    where G: "to_flow_matrix (number_of_values d) (data d) b = Inr G"
      and n: "is_flow_network (length (data d)) (number_of_values d) (pairs (data d)) b G"
    by blast
  from to_flow_matrix_Inr [OF ne, of "number_of_values d" b] G
  have T: "triples G = flow_triples (number_of_values d) (data d) b" by simp
  from n have "nrows G = ncols G \<and> 1 < nrows G"
    by (simp add: is_flow_network_def)
  with maximum_flow_nonpositive [OF T assms(2)] G show ?thesis
    by (simp add: flow_distinct_count_def as_flow_matrix_def)
qed

text \<open>
  Claim C2, as amended. The code has no check of the contribution bound and never
  raises a dedicated error. For every data set and every bound \<open>b \<le> 0\<close>: the greedy
  estimator runs zero rounds and returns 0; the matching estimator fails with the
  library's \<^verbatim>\<open>ValueError\<close> for stacking an empty list of matrices; the flow estimator
  returns 0, or fails with the library's \<^verbatim>\<open>ValueError\<close> when the flow matrix is not
  square (it is square, and the result 0, for contiguous value identifiers and at least
  one value); the sampling estimator returns 0 for \<open>b = 0\<close> and fails with the
  \<^verbatim>\<open>ValueError\<close> of \<^verbatim>\<open>random.sample\<close> for \<open>b < 0\<close>.
\<close>

theorem nonpositive_bound:
  assumes "DataSet_init xs = Inr d" and "b \<le> 0"
  shows "greedy_distinct_count d b = 0
       \<and> matching_distinct_count d b = Inl ValueError
       \<and> (flow_distinct_count d b = Inr 0 \<or> flow_distinct_count d b = Inl ValueError)
       \<and> (contiguous_values d \<and> 0 < number_of_values d \<longrightarrow> flow_distinct_count d b = Inr 0)
       \<and> (b = 0 \<and> valid_draws d b draws \<longrightarrow> sampling_distinct_count d b draws = Inr 0)
       \<and> (b < 0 \<longrightarrow> sampling_distinct_count d b draws = Inl ValueError)"
proof -
  have g: "greedy_distinct_count d b = 0"
    using assms(2) by (simp add: greedy_distinct_count_def greedy_state_nonpositive)
  have m: "matching_distinct_count d b = Inl ValueError"
    using assms(2) by (rule matching_nonpositive)
  have f: "flow_distinct_count d b = Inr 0 \<or> flow_distinct_count d b = Inl ValueError"
    by (rule flow_nonpositive [OF assms])
  have fs: "flow_distinct_count d b = Inr 0" if "contiguous_values d" "0 < number_of_values d"
    by (rule flow_nonpositive_square [OF assms that])
  have s0: "sampling_distinct_count d b draws = Inr 0" if "b = 0" "valid_draws d b draws"
  proof -
    have "\<forall>dr \<in> set draws. dr = []"
    proof
      fix dr assume "dr \<in> set draws"
      then obtain i where i: "i < length draws" "draws ! i = dr"
        by (auto simp: in_set_conv_nth)
      with that have "valid_draw (data d ! i) 0 dr"
        by (auto simp: valid_draws_def)
      then show "dr = []" by (simp add: valid_draw_def)
    qed
    then show ?thesis
      using that(1) by (simp add: sampling_distinct_count_def sampling_loop_zero)
  qed
  have sn: "sampling_distinct_count d b draws = Inl ValueError" if "b < 0"
    using that DataSet_init_data [OF assms(1)]
    by (simp add: sampling_distinct_count_def sampling_loop_negative)
  from g m f fs s0 sn show ?thesis by blast
qed

lemma example_data_contiguous: "contiguous_values example_data"
  by (auto simp: contiguous_values_def example_data_def)

theorem nonpositive_bound_witness:
  "DataSet_init [[0, 1], [2, 1]] = Inr example_data \<and> (- 1 :: int) \<le> 0 \<and> (0::int) \<le> 0
   \<and> contiguous_values example_data \<and> 0 < number_of_values example_data
   \<and> valid_draws example_data 0 [[], []]
   \<and> greedy_distinct_count example_data (- 1) = 0
   \<and> matching_distinct_count example_data (- 1) = Inl ValueError
   \<and> flow_distinct_count example_data (- 1) = Inr 0
   \<and> sampling_distinct_count example_data (- 1) [[], []] = Inl ValueError
   \<and> flow_distinct_count example_data 0 = Inr 0
   \<and> sampling_distinct_count example_data 0 [[], []] = Inr 0"
proof -
  have v: "valid_draws example_data 0 [[], []]"
    by (auto simp: valid_draws_def valid_draw_def example_data_def less_Suc_eq)
  have n: "0 < number_of_values example_data" by (simp add: example_data_def)
  have z: "(0::int) \<le> 0" and z1: "(- 1 :: int) \<le> 0" by simp_all
  show ?thesis
    using nonpositive_bound [OF example_data_init z1, of "[[], []]"]
      nonpositive_bound [OF example_data_init z, of "[[], []]"]
      example_data_init example_data_contiguous n v
    by simp
qed

end
